theory Spec2Isabelle
  imports Complex_Main
begin

section \<open>JavaScript values\<close>

text \<open>
  The caches are generic in their payload, and several branches of the code test a
  payload for truthiness (\<^verbatim>\<open>if (entry)\<close>, \<^verbatim>\<open>if (value)\<close>), so payloads are modelled
  as JavaScript values. A number is a rational, \<open>NaN\<close> or an infinity: the only
  arithmetic the code performs on numbers is comparison and the truncation inside
  \<^verbatim>\<open>new Date(n)\<close>, both exact on doubles. Negative zero is identified with zero. The time
  value of a \<^verbatim>\<open>Date\<close> is an integer number of milliseconds or invalid (\<open>NaN\<close>).
\<close>

datatype jsnum = Num rat | NaN | PosInf | NegInf

datatype timeval = TimeMs int | InvalidTime

datatype jsval =
    JUndefined
  | JNull
  | JBool bool
  | JNum jsnum
  | JStr string
  | JDate timeval
  | JObj "(string \<times> jsval) list"
  | JArr "jsval list"

datatype error = SyntaxError | TypeError | HookError string

fun num_truthy :: "jsnum \<Rightarrow> bool" where
  "num_truthy (Num r) = (r \<noteq> 0)"
| "num_truthy NaN = False"
| "num_truthy PosInf = True"
| "num_truthy NegInf = True"

fun truthy :: "jsval \<Rightarrow> bool" where
  "truthy JUndefined = False"
| "truthy JNull = False"
| "truthy (JBool b) = b"
| "truthy (JNum n) = num_truthy n"
| "truthy (JStr s) = (s \<noteq> [])"
| "truthy (JDate t) = True"
| "truthy (JObj ps) = True"
| "truthy (JArr vs) = True"

text \<open>\<^verbatim>\<open>if (m.get(key))\<close>: a missing key reads as \<^verbatim>\<open>undefined\<close>, which is falsy.\<close>

fun truthy_opt :: "jsval option \<Rightarrow> bool" where
  "truthy_opt None = False"
| "truthy_opt (Some v) = truthy v"

section \<open>The JavaScript Map\<close>

text \<open>
  A \<^verbatim>\<open>Map\<close> is the list of its entries in insertion order. As in ECMAScript, deleting
  an entry empties its slot without removing it (here \<open>None\<close>), setting an existing key
  overwrites the value in its slot, and setting a new key appends a slot. Iterators are
  positions in that list, which is what makes them live.
\<close>

type_synonym ('k, 'v) jsmap = "('k \<times> 'v) option list"

fun live :: "'a option list \<Rightarrow> 'a list" where
  "live [] = []"
| "live (None # m) = live m"
| "live (Some x # m) = x # live m"

definition mget :: "'k \<Rightarrow> ('k, 'v) jsmap \<Rightarrow> 'v option" where
  "mget k m = map_of (live m) k"

definition mhas :: "'k \<Rightarrow> ('k, 'v) jsmap \<Rightarrow> bool" where
  "mhas k m = (k \<in> set (map fst (live m)))"

fun slot_set :: "'k \<Rightarrow> 'v \<Rightarrow> ('k \<times> 'v) option \<Rightarrow> ('k \<times> 'v) option" where
  "slot_set k v None = None"
| "slot_set k v (Some (k', v')) = (if k' = k then Some (k, v) else Some (k', v'))"

definition mset :: "'k \<Rightarrow> 'v \<Rightarrow> ('k, 'v) jsmap \<Rightarrow> ('k, 'v) jsmap" where
  "mset k v m = (if mhas k m then map (slot_set k v) m else m @ [Some (k, v)])"

fun slot_delete :: "'k \<Rightarrow> ('k \<times> 'v) option \<Rightarrow> ('k \<times> 'v) option" where
  "slot_delete k None = None"
| "slot_delete k (Some (k', v')) = (if k' = k then None else Some (k', v'))"

definition mdelete :: "'k \<Rightarrow> ('k, 'v) jsmap \<Rightarrow> ('k, 'v) jsmap" where
  "mdelete k m = map (slot_delete k) m"

definition mclear :: "('k, 'v) jsmap \<Rightarrow> ('k, 'v) jsmap" where
  "mclear m = map (\<lambda>_. None) m"

definition msize :: "('k, 'v) jsmap \<Rightarrow> nat" where
  "msize m = length (live m)"

definition mkeys :: "('k, 'v) jsmap \<Rightarrow> 'k list" where
  "mkeys m = map fst (live m)"

definition mvalues :: "('k, 'v) jsmap \<Rightarrow> 'v list" where
  "mvalues m = map snd (live m)"

text \<open>
  A Map iterator is the index of the next slot to look at, or \<open>None\<close> once it has
  reported the end (it then stays exhausted). \<open>mnext\<close> is
  \<^verbatim>\<open>%MapIteratorPrototype%.next\<close>: it skips emptied slots from the index on.
\<close>

type_synonym map_iterator = "nat option"

definition mentries :: "('k, 'v) jsmap \<Rightarrow> map_iterator" where
  "mentries m = Some 0"

fun skip_empty :: "'a option list \<Rightarrow> nat \<Rightarrow> ('a \<times> nat) option" where
  "skip_empty [] i = None"
| "skip_empty (None # es) i = skip_empty es (Suc i)"
| "skip_empty (Some x # es) i = Some (x, Suc i)"

definition mnext :: "('k, 'v) jsmap \<Rightarrow> map_iterator \<Rightarrow> ('k \<times> 'v) option \<times> map_iterator" where
  "mnext m it =
     (case it of
        None \<Rightarrow> (None, None)
      | Some i \<Rightarrow>
          (case skip_empty (drop i m) i of
             None \<Rightarrow> (None, None)
           | Some (x, i') \<Rightarrow> (Some x, Some i')))"

section \<open>Timers\<close>

text \<open>
  \<^verbatim>\<open>setTimeout\<close> and \<^verbatim>\<open>clearTimeout\<close> of the runtime: the scheduler hands out fresh
  handles and keeps the timers that are armed and have neither fired nor been cleared,
  each with the key its callback closes over and the delay it was armed with. Handles
  are objects (or positive numbers) and always truthy.
\<close>

record 'k timers =
  next_handle :: nat
  pending :: "(nat \<times> 'k \<times> int) list"

definition no_timers :: "'k timers" where
  "no_timers = \<lparr>next_handle = 1, pending = []\<rparr>"

definition js_setTimeout :: "'k \<Rightarrow> int \<Rightarrow> 'k timers \<Rightarrow> nat \<times> 'k timers" where
  "js_setTimeout key delay T =
     (next_handle T,
      \<lparr>next_handle = Suc (next_handle T), pending = pending T @ [(next_handle T, key, delay)]\<rparr>)"

definition js_clearTimeout :: "nat \<Rightarrow> 'k timers \<Rightarrow> 'k timers" where
  "js_clearTimeout h T = T\<lparr>pending := filter (\<lambda>t. fst t \<noteq> h) (pending T)\<rparr>"

text \<open>The timers armed for one key that can still fire.\<close>

definition timers_for :: "'k \<Rightarrow> 'k timers \<Rightarrow> (nat \<times> 'k \<times> int) list" where
  "timers_for key T = filter (\<lambda>t. fst (snd t) = key) (pending T)"

text \<open>A timer fires once: firing takes it out of the pending list and yields its key.\<close>

definition js_fire :: "nat \<Rightarrow> 'k timers \<Rightarrow> 'k option \<times> 'k timers" where
  "js_fire h T =
     (case filter (\<lambda>t. fst t = h) (pending T) of
        [] \<Rightarrow> (None, T)
      | t # _ \<Rightarrow> (Some (fst (snd t)), js_clearTimeout h T))"

section \<open>The lazy-expiring cache: ExpireCache\<close>

text \<open>
  Events emitted to observers, in emission order. Timestamps and offsets are integer
  milliseconds; a \<^verbatim>\<open>Date\<close> argument is a valid date, given by its time value. The
  reading of the clock (\<^verbatim>\<open>Date.now()\<close>, \<^verbatim>\<open>new Date().getTime()\<close>) is the argument
  \<open>now\<close> of each operation. Logging does not affect the state and is left out.
\<close>

datatype 'k cache_event =
    OnSet 'k jsval "int option"
  | OnGet 'k
  | OnDelete 'k
  | OnClear "('k \<times> jsval) list"
  | OnExpires 'k jsval

record 'k expire_cache =
  ec_cache :: "('k, jsval) jsmap"
  ec_cacheTtl :: "('k, int option) jsmap"
  ec_defaultExpireMs :: "int option"
  ec_events :: "'k cache_event list"

definition ExpireCache_new :: "int option \<Rightarrow> 'k expire_cache" where
  "ExpireCache_new defaultExpireMs =
     \<lparr>ec_cache = [], ec_cacheTtl = [], ec_defaultExpireMs = defaultExpireMs, ec_events = []\<rparr>"

definition ec_emit :: "'k cache_event \<Rightarrow> 'k expire_cache \<Rightarrow> 'k expire_cache" where
  "ec_emit e s = s\<lparr>ec_events := ec_events s @ [e]\<rparr>"

fun ExpireCache_notifyExpires :: "('k \<times> jsval) list \<Rightarrow> 'k expire_cache \<Rightarrow> 'k expire_cache" where
  "ExpireCache_notifyExpires [] s = s"
| "ExpireCache_notifyExpires ((key, v) # entries) s =
     ExpireCache_notifyExpires entries (ec_emit (OnExpires key v) s)"

text \<open>\<^verbatim>\<open>this.defaultExpireMs ? ... : undefined\<close>: an offset of 0 is falsy.\<close>

definition ExpireCache_getExpireDate :: "int \<Rightarrow> int option \<Rightarrow> 'k expire_cache \<Rightarrow> int option" where
  "ExpireCache_getExpireDate now expires s =
     (let defaultExpireDate =
            (case ec_defaultExpireMs s of
               None \<Rightarrow> None
             | Some ms \<Rightarrow> if ms \<noteq> 0 then Some (now + ms) else None)
      in case expires of None \<Rightarrow> defaultExpireDate | Some d \<Rightarrow> Some d)"

definition ExpireCache_set ::
  "int \<Rightarrow> 'k \<Rightarrow> jsval \<Rightarrow> int option \<Rightarrow> 'k expire_cache \<Rightarrow> 'k expire_cache" where
  "ExpireCache_set now key data expires s =
     (let expireTs = ExpireCache_getExpireDate now expires s;
          s1 = ec_emit (OnSet key data (ExpireCache_getExpireDate now expires s)) s
      in s1\<lparr>ec_cache := mset key data (ec_cache s1),
             ec_cacheTtl := mset key expireTs (ec_cacheTtl s1)\<rparr>)"

text \<open>
  The loop of \<^verbatim>\<open>cleanExpired\<close> over \<^verbatim>\<open>this.cacheTtl.entries()\<close>. The only slot of
  \<^verbatim>\<open>cacheTtl\<close> the body empties is the one being visited, so the live iteration visits
  exactly the entries present when the loop starts. The accumulator is the cache and the
  \<^verbatim>\<open>deleteEntries\<close> map.
\<close>

fun ExpireCache_cleanExpired_loop ::
  "int \<Rightarrow> ('k \<times> int option) list \<Rightarrow> 'k expire_cache \<times> ('k, jsval) jsmap
     \<Rightarrow> 'k expire_cache \<times> ('k, jsval) jsmap" where
  "ExpireCache_cleanExpired_loop now [] acc = acc"
| "ExpireCache_cleanExpired_loop now ((key, expire) # rest) (s, deleteEntries) =
     (case expire of
        None \<Rightarrow> ExpireCache_cleanExpired_loop now rest (s, deleteEntries)
      | Some e \<Rightarrow>
          if e < now then
            (case mget key (ec_cache s) of
               None \<Rightarrow>
                 ExpireCache_cleanExpired_loop now rest
                   (s\<lparr>ec_cacheTtl := mdelete key (ec_cacheTtl s)\<rparr>, deleteEntries)
             | Some v \<Rightarrow>
                 if truthy v then
                   ExpireCache_cleanExpired_loop now rest
                     (s\<lparr>ec_cache := mdelete key (ec_cache s),
                        ec_cacheTtl := mdelete key (ec_cacheTtl s)\<rparr>,
                      mset key v deleteEntries)
                 else
                   ExpireCache_cleanExpired_loop now rest
                     (s\<lparr>ec_cacheTtl := mdelete key (ec_cacheTtl s)\<rparr>, deleteEntries))
          else ExpireCache_cleanExpired_loop now rest (s, deleteEntries))"

definition ExpireCache_cleanExpired :: "int \<Rightarrow> 'k expire_cache \<Rightarrow> 'k expire_cache" where
  "ExpireCache_cleanExpired now s =
     (case ExpireCache_cleanExpired_loop now (live (ec_cacheTtl s)) (s, []) of
        (s1, deleteEntries) \<Rightarrow>
          if msize deleteEntries > 0 then ExpireCache_notifyExpires (live deleteEntries) s1
          else s1)"

definition ExpireCache_get :: "int \<Rightarrow> 'k \<Rightarrow> 'k expire_cache \<Rightarrow> jsval option \<times> 'k expire_cache" where
  "ExpireCache_get now key s =
     (let s1 = ec_emit (OnGet key) s;
          s2 = ExpireCache_cleanExpired now s1
      in (mget key (ec_cache s2), s2))"

definition ExpireCache_has :: "int \<Rightarrow> 'k \<Rightarrow> 'k expire_cache \<Rightarrow> bool \<times> 'k expire_cache" where
  "ExpireCache_has now key s =
     (let s1 = ExpireCache_cleanExpired now s in (mhas key (ec_cache s1), s1))"

text \<open>
  \<^verbatim>\<open>expires\<close> reads the stored expiry before it sweeps, and turns a stored timestamp
  of 0 into \<^verbatim>\<open>undefined\<close> (\<^verbatim>\<open>expires ? new Date(expires) : undefined\<close>).
\<close>

definition ExpireCache_expires :: "int \<Rightarrow> 'k \<Rightarrow> 'k expire_cache \<Rightarrow> int option \<times> 'k expire_cache" where
  "ExpireCache_expires now key s =
     (let expires = mget key (ec_cacheTtl s);
          s1 = ExpireCache_cleanExpired now s
      in (case expires of
            Some (Some e) \<Rightarrow> if e \<noteq> 0 then Some e else None
          | _ \<Rightarrow> None, s1))"

definition ExpireCache_delete :: "'k \<Rightarrow> 'k expire_cache \<Rightarrow> bool \<times> 'k expire_cache" where
  "ExpireCache_delete key s =
     (let entry = mget key (ec_cache s);
          s1 = (case entry of
                  None \<Rightarrow> s
                | Some v \<Rightarrow>
                    if truthy v then ec_emit (OnDelete key) (ExpireCache_notifyExpires [(key, v)] s)
                    else s);
          s2 = s1\<lparr>ec_cacheTtl := mdelete key (ec_cacheTtl s1)\<rparr>
      in (mhas key (ec_cache s2), s2\<lparr>ec_cache := mdelete key (ec_cache s2)\<rparr>))"

definition ExpireCache_clear :: "'k expire_cache \<Rightarrow> 'k expire_cache" where
  "ExpireCache_clear s =
     (let copy = live (ec_cache s);
          s1 = ExpireCache_notifyExpires copy s;
          s2 = ec_emit (OnClear copy) s1
      in s2\<lparr>ec_cache := mclear (ec_cache s2), ec_cacheTtl := mclear (ec_cacheTtl s2)\<rparr>)"

definition ExpireCache_size :: "'k expire_cache \<Rightarrow> nat" where
  "ExpireCache_size s = msize (ec_cache s)"

text \<open>The iteration operations sweep, then iterate a copy \<^verbatim>\<open>new Map(this.cache)\<close>.\<close>

definition ExpireCache_entries :: "int \<Rightarrow> 'k expire_cache \<Rightarrow> ('k \<times> jsval) list \<times> 'k expire_cache" where
  "ExpireCache_entries now s =
     (let s1 = ExpireCache_cleanExpired now s in (live (ec_cache s1), s1))"

definition ExpireCache_keys :: "int \<Rightarrow> 'k expire_cache \<Rightarrow> 'k list \<times> 'k expire_cache" where
  "ExpireCache_keys now s =
     (let s1 = ExpireCache_cleanExpired now s in (mkeys (ec_cache s1), s1))"

definition ExpireCache_values :: "int \<Rightarrow> 'k expire_cache \<Rightarrow> jsval list \<times> 'k expire_cache" where
  "ExpireCache_values now s =
     (let s1 = ExpireCache_cleanExpired now s in (mvalues (ec_cache s1), s1))"

definition ExpireCache_setExpireMs :: "int option \<Rightarrow> 'k expire_cache \<Rightarrow> 'k expire_cache" where
  "ExpireCache_setExpireMs expireMs s = s\<lparr>ec_defaultExpireMs := expireMs\<rparr>"

text \<open>
  Vocabulary for the sweep: a stored expiry is past when it is strictly before \<open>now\<close>;
  a key is expired when it is tracked with a past expiry; the swept entries are the
  tracked keys with a past expiry whose cached payload is truthy, in tracking order.
\<close>

definition ttl_past :: "int \<Rightarrow> int option \<Rightarrow> bool" where
  "ttl_past now expire = (case expire of None \<Rightarrow> False | Some e \<Rightarrow> e < now)"

definition ec_expired :: "int \<Rightarrow> 'k expire_cache \<Rightarrow> 'k \<Rightarrow> bool" where
  "ec_expired now s k = (case mget k (ec_cacheTtl s) of None \<Rightarrow> False | Some expire \<Rightarrow> ttl_past now expire)"

definition sweep_pick :: "int \<Rightarrow> ('k, jsval) jsmap \<Rightarrow> 'k \<times> int option \<Rightarrow> ('k \<times> jsval) option" where
  "sweep_pick now c p =
     (if ttl_past now (snd p) then
        (case mget (fst p) c of
           None \<Rightarrow> None
         | Some v \<Rightarrow> if truthy v then Some (fst p, v) else None)
      else None)"

definition ec_swept :: "int \<Rightarrow> 'k expire_cache \<Rightarrow> ('k \<times> jsval) list" where
  "ec_swept now s = List.map_filter (sweep_pick now (ec_cache s)) (live (ec_cacheTtl s))"

text \<open>The keys of each of the two Maps are distinct.\<close>

definition ec_wf :: "'k expire_cache \<Rightarrow> bool" where
  "ec_wf s = (distinct (mkeys (ec_cache s)) \<and> distinct (mkeys (ec_cacheTtl s)))"

text \<open>The public operations, and the state a sequence of calls leaves behind.\<close>

datatype 'k ec_op =
    EcSet 'k jsval "int option"
  | EcGet 'k
  | EcHas 'k
  | EcExpires 'k
  | EcDelete 'k
  | EcClear
  | EcSize
  | EcEntries
  | EcKeys
  | EcValues
  | EcSetExpireMs "int option"

fun ec_exec :: "int \<times> 'k ec_op \<Rightarrow> 'k expire_cache \<Rightarrow> 'k expire_cache" where
  "ec_exec (now, EcSet key data expires) s = ExpireCache_set now key data expires s"
| "ec_exec (now, EcGet key) s = snd (ExpireCache_get now key s)"
| "ec_exec (now, EcHas key) s = snd (ExpireCache_has now key s)"
| "ec_exec (now, EcExpires key) s = snd (ExpireCache_expires now key s)"
| "ec_exec (now, EcDelete key) s = snd (ExpireCache_delete key s)"
| "ec_exec (now, EcClear) s = ExpireCache_clear s"
| "ec_exec (now, EcSize) s = s"
| "ec_exec (now, EcEntries) s = snd (ExpireCache_entries now s)"
| "ec_exec (now, EcKeys) s = snd (ExpireCache_keys now s)"
| "ec_exec (now, EcValues) s = snd (ExpireCache_values now s)"
| "ec_exec (now, EcSetExpireMs expireMs) s = ExpireCache_setExpireMs expireMs s"

definition ec_run :: "(int \<times> 'k ec_op) list \<Rightarrow> 'k expire_cache \<Rightarrow> 'k expire_cache" where
  "ec_run ops s = fold ec_exec ops s"

section \<open>The timer-expiring cache: ExpireTimeoutCache\<close>

datatype timeout_object = TimeoutObject (to_timeout: "nat option") (to_expires: "int option")

record 'k expire_timeout_cache =
  etc_cache :: "('k, jsval) jsmap"
  etc_cacheTimeout :: "('k, timeout_object) jsmap"
  etc_defaultExpireMs :: "int option"
  etc_events :: "'k cache_event list"
  etc_timers :: "'k timers"

definition ExpireTimeoutCache_new :: "int option \<Rightarrow> 'k expire_timeout_cache" where
  "ExpireTimeoutCache_new defaultExpireMs =
     \<lparr>etc_cache = [], etc_cacheTimeout = [], etc_defaultExpireMs = defaultExpireMs,
      etc_events = [], etc_timers = no_timers\<rparr>"

definition etc_emit :: "'k cache_event \<Rightarrow> 'k expire_timeout_cache \<Rightarrow> 'k expire_timeout_cache" where
  "etc_emit e s = s\<lparr>etc_events := etc_events s @ [e]\<rparr>"

fun ExpireTimeoutCache_notifyExpires ::
  "('k \<times> jsval) list \<Rightarrow> 'k expire_timeout_cache \<Rightarrow> 'k expire_timeout_cache" where
  "ExpireTimeoutCache_notifyExpires [] s = s"
| "ExpireTimeoutCache_notifyExpires ((key, v) # entries) s =
     ExpireTimeoutCache_notifyExpires entries (etc_emit (OnExpires key v) s)"

text \<open>
  \<^verbatim>\<open>clearTimeout(key)\<close>: clears the handle recorded for the key, if any, and sets the
  \<^verbatim>\<open>timeout\<close> field of the recorded object to \<^verbatim>\<open>undefined\<close> in place.
\<close>

definition ExpireTimeoutCache_clearTimeout :: "'k \<Rightarrow> 'k expire_timeout_cache \<Rightarrow> 'k expire_timeout_cache" where
  "ExpireTimeoutCache_clearTimeout key s =
     (case mget key (etc_cacheTimeout s) of
        Some (TimeoutObject (Some h) e) \<Rightarrow>
          s\<lparr>etc_timers := js_clearTimeout h (etc_timers s),
            etc_cacheTimeout := mset key (TimeoutObject None e) (etc_cacheTimeout s)\<rparr>
      | _ \<Rightarrow> s)"

definition ExpireTimeoutCache_getExpireDate ::
  "int \<Rightarrow> int option \<Rightarrow> 'k expire_timeout_cache \<Rightarrow> int option" where
  "ExpireTimeoutCache_getExpireDate now expires s =
     (let defaultExpireDate =
            (case etc_defaultExpireMs s of
               None \<Rightarrow> None
             | Some ms \<Rightarrow> if ms \<noteq> 0 then Some (now + ms) else None)
      in case expires of None \<Rightarrow> defaultExpireDate | Some d \<Rightarrow> Some d)"

text \<open>
  \<^verbatim>\<open>handleTimeoutSetup\<close> returns \<^verbatim>\<open>{expiresInMs, timeout, expires}\<close>; the first field
  is only logged, the other two are the object stored by \<^verbatim>\<open>set\<close>.
\<close>

definition ExpireTimeoutCache_handleTimeoutSetup ::
  "int \<Rightarrow> 'k \<Rightarrow> int option \<Rightarrow> 'k expire_timeout_cache \<Rightarrow> timeout_object \<times> 'k expire_timeout_cache" where
  "ExpireTimeoutCache_handleTimeoutSetup now key expiresDate s =
     (case expiresDate of
        None \<Rightarrow> (TimeoutObject None None, s)
      | Some d \<Rightarrow>
          (case js_setTimeout key (d - now) (etc_timers s) of
             (h, T) \<Rightarrow> (TimeoutObject (Some h) (Some d), s\<lparr>etc_timers := T\<rparr>)))"

definition ExpireTimeoutCache_set ::
  "int \<Rightarrow> 'k \<Rightarrow> jsval \<Rightarrow> int option \<Rightarrow> 'k expire_timeout_cache \<Rightarrow> 'k expire_timeout_cache" where
  "ExpireTimeoutCache_set now key data expires s =
     (let s1 = ExpireTimeoutCache_clearTimeout key s
      in case ExpireTimeoutCache_handleTimeoutSetup now key
                (ExpireTimeoutCache_getExpireDate now expires s1) s1 of
           (options, s2) \<Rightarrow>
             s2\<lparr>etc_cache := mset key data (etc_cache s2),
                etc_cacheTimeout := mset key options (etc_cacheTimeout s2)\<rparr>)"

definition ExpireTimeoutCache_get :: "'k \<Rightarrow> 'k expire_timeout_cache \<Rightarrow> jsval option \<times> 'k expire_timeout_cache" where
  "ExpireTimeoutCache_get key s = (let s1 = etc_emit (OnGet key) s in (mget key (etc_cache s1), s1))"

definition ExpireTimeoutCache_has :: "'k \<Rightarrow> 'k expire_timeout_cache \<Rightarrow> bool" where
  "ExpireTimeoutCache_has key s = mhas key (etc_cache s)"

definition ExpireTimeoutCache_expires :: "'k \<Rightarrow> 'k expire_timeout_cache \<Rightarrow> int option" where
  "ExpireTimeoutCache_expires key s =
     (case mget key (etc_cacheTimeout s) of None \<Rightarrow> None | Some obj \<Rightarrow> to_expires obj)"

definition ExpireTimeoutCache_delete :: "'k \<Rightarrow> 'k expire_timeout_cache \<Rightarrow> bool \<times> 'k expire_timeout_cache" where
  "ExpireTimeoutCache_delete key s =
     (let s1 = ExpireTimeoutCache_clearTimeout key s;
          entry = mget key (etc_cache s1);
          s2 = (case entry of
                  None \<Rightarrow> s1
                | Some v \<Rightarrow>
                    if truthy v
                    then ExpireTimeoutCache_notifyExpires [(key, v)] (etc_emit (OnDelete key) s1)
                    else s1)
      in (mhas key (etc_cache s2), s2\<lparr>etc_cache := mdelete key (etc_cache s2)\<rparr>))"

fun ExpireTimeoutCache_clearTimeouts :: "'k list \<Rightarrow> 'k expire_timeout_cache \<Rightarrow> 'k expire_timeout_cache" where
  "ExpireTimeoutCache_clearTimeouts [] s = s"
| "ExpireTimeoutCache_clearTimeouts (key # keys) s =
     ExpireTimeoutCache_clearTimeouts keys (ExpireTimeoutCache_clearTimeout key s)"

definition ExpireTimeoutCache_clear :: "'k expire_timeout_cache \<Rightarrow> 'k expire_timeout_cache" where
  "ExpireTimeoutCache_clear s =
     (let s1 = ExpireTimeoutCache_clearTimeouts (mkeys (etc_cacheTimeout s)) s;
          copy = live (etc_cache s1);
          s2 = ExpireTimeoutCache_notifyExpires copy s1;
          s3 = etc_emit (OnClear copy) s2
      in s3\<lparr>etc_cache := mclear (etc_cache s3), etc_cacheTimeout := mclear (etc_cacheTimeout s3)\<rparr>)"

definition ExpireTimeoutCache_size :: "'k expire_timeout_cache \<Rightarrow> nat" where
  "ExpireTimeoutCache_size s = msize (etc_cache s)"

definition ExpireTimeoutCache_entries :: "'k expire_timeout_cache \<Rightarrow> ('k \<times> jsval) list" where
  "ExpireTimeoutCache_entries s = live (etc_cache s)"

definition ExpireTimeoutCache_keys :: "'k expire_timeout_cache \<Rightarrow> 'k list" where
  "ExpireTimeoutCache_keys s = mkeys (etc_cache s)"

definition ExpireTimeoutCache_values :: "'k expire_timeout_cache \<Rightarrow> jsval list" where
  "ExpireTimeoutCache_values s = mvalues (etc_cache s)"

definition ExpireTimeoutCache_setExpireMs :: "int option \<Rightarrow> 'k expire_timeout_cache \<Rightarrow> 'k expire_timeout_cache" where
  "ExpireTimeoutCache_setExpireMs expireMs s = s\<lparr>etc_defaultExpireMs := expireMs\<rparr>"

definition ExpireTimeoutCache_handleExpiredCallback :: "'k \<Rightarrow> 'k expire_timeout_cache \<Rightarrow> 'k expire_timeout_cache" where
  "ExpireTimeoutCache_handleExpiredCallback key s = snd (ExpireTimeoutCache_delete key s)"

text \<open>
  The scheduler runs the callback of a pending timer: the timer leaves the pending list
  and \<^verbatim>\<open>handleExpiredCallback\<close> runs for its key. A handle that is not pending does
  nothing.
\<close>

definition etc_fire :: "nat \<Rightarrow> 'k expire_timeout_cache \<Rightarrow> 'k expire_timeout_cache" where
  "etc_fire h s =
     (case js_fire h (etc_timers s) of
        (None, T) \<Rightarrow> s
      | (Some key, T) \<Rightarrow> ExpireTimeoutCache_handleExpiredCallback key (s\<lparr>etc_timers := T\<rparr>))"

datatype 'k etc_op =
    EtSet 'k jsval "int option"
  | EtGet 'k
  | EtDelete 'k
  | EtClear
  | EtSetExpireMs "int option"
  | EtFire nat

fun etc_exec :: "int \<times> 'k etc_op \<Rightarrow> 'k expire_timeout_cache \<Rightarrow> 'k expire_timeout_cache" where
  "etc_exec (now, EtSet key data expires) s = ExpireTimeoutCache_set now key data expires s"
| "etc_exec (now, EtGet key) s = snd (ExpireTimeoutCache_get key s)"
| "etc_exec (now, EtDelete key) s = snd (ExpireTimeoutCache_delete key s)"
| "etc_exec (now, EtClear) s = ExpireTimeoutCache_clear s"
| "etc_exec (now, EtSetExpireMs expireMs) s = ExpireTimeoutCache_setExpireMs expireMs s"
| "etc_exec (now, EtFire h) s = etc_fire h s"

definition etc_run :: "(int \<times> 'k etc_op) list \<Rightarrow> 'k expire_timeout_cache \<Rightarrow> 'k expire_timeout_cache" where
  "etc_run ops s = fold etc_exec ops s"

section \<open>The tiered cache engine: TieredCache\<close>

datatype 't tier_entry = TierEntry (tier: 't) (data: jsval)

record 't tiered_cache_status =
  status_size :: nat
  status_tiers :: "'t \<Rightarrow> nat"

datatype ('k, 't) tiered_event =
    EmitSet "'k list"
  | EmitDelete "'k list"
  | EmitClear
  | EmitUpdate "'t tiered_cache_status"

text \<open>
  The four abstract methods a subclass supplies. Any of them may throw (\<open>Inl\<close>);
  \<^verbatim>\<open>undefined\<close> as a reprojected value is \<open>JUndefined\<close>, as a timeout it is \<open>None\<close>.
  Here \<^verbatim>\<open>handleCacheEntry\<close>, \<^verbatim>\<open>handleTimeoutValue\<close> and \<^verbatim>\<open>handleTierDefaultTimeout\<close> are
  functions of their arguments, as in the reference strategy, and \<^verbatim>\<open>handleTierTimeout\<close>
  changes the engine through its protected members: the hook is given the cache it can read
  and answers with the calls it makes, in order, and its result. Methods that change the
  cache from any of the four places are the subject of the section on the engine with
  methods that act on the cache.
\<close>

datatype ('k, 't) hook_action =
    HandleSetValue 'k 't jsval "int option"
  | HandleDeleteValue 'k
  | CacheSet 'k 't jsval
  | CacheDelete 'k

record ('k, 't) hooks =
  handleCacheEntry :: "'k \<Rightarrow> 't \<Rightarrow> 't tier_entry option \<Rightarrow> error + jsval"
  handleTimeoutValue :: "'k \<Rightarrow> 't \<Rightarrow> jsval \<Rightarrow> error + int option"
  handleTierTimeout ::
    "'k \<Rightarrow> ('k, 't tier_entry) jsmap \<Rightarrow> ('k, 't) hook_action list \<times> (error + int option)"
  handleTierDefaultTimeout :: "'t \<Rightarrow> error + int option"

record ('k, 't) tiered_cache =
  tc_cache :: "('k, 't tier_entry) jsmap"
  tc_cacheTimeout :: "('k, nat) jsmap"
  tc_statusData :: "'t tiered_cache_status"
  tc_events :: "('k, 't) tiered_event list"
  tc_timers :: "'k timers"
  tc_errors :: "error list"

text \<open>
  \<^verbatim>\<open>getInitialStatusData\<close> has the type \<^verbatim>\<open>Record<tier, 0>\<close>: every tier starts at 0.
\<close>

definition getInitialStatusData :: "'t \<Rightarrow> nat" where
  "getInitialStatusData = (\<lambda>t. 0)"

definition TieredCache_new :: "('k, 't) tiered_cache" where
  "TieredCache_new =
     \<lparr>tc_cache = [], tc_cacheTimeout = [],
      tc_statusData = \<lparr>status_size = 0, status_tiers = getInitialStatusData\<rparr>,
      tc_events = [], tc_timers = no_timers, tc_errors = []\<rparr>"

definition tc_emit :: "('k, 't) tiered_event \<Rightarrow> ('k, 't) tiered_cache \<Rightarrow> ('k, 't) tiered_cache" where
  "tc_emit e s = s\<lparr>tc_events := tc_events s @ [e]\<rparr>"

definition TieredCache_setTimeout :: "'k \<Rightarrow> int option \<Rightarrow> ('k, 't) tiered_cache \<Rightarrow> ('k, 't) tiered_cache" where
  "TieredCache_setTimeout key timeout s =
     (let s1 = (case mget key (tc_cacheTimeout s) of
                  None \<Rightarrow> s
                | Some oldTimeout \<Rightarrow> s\<lparr>tc_timers := js_clearTimeout oldTimeout (tc_timers s)\<rparr>)
      in case timeout of
           None \<Rightarrow> s1
         | Some t \<Rightarrow>
             (case js_setTimeout key t (tc_timers s1) of
                (h, T) \<Rightarrow> s1\<lparr>tc_timers := T, tc_cacheTimeout := mset key h (tc_cacheTimeout s1)\<rparr>))"

definition TieredCache_clearTimeoutKey :: "'k \<Rightarrow> ('k, 't) tiered_cache \<Rightarrow> ('k, 't) tiered_cache" where
  "TieredCache_clearTimeoutKey key s =
     (let s1 = (case mget key (tc_cacheTimeout s) of
                  None \<Rightarrow> s
                | Some oldTimeout \<Rightarrow> s\<lparr>tc_timers := js_clearTimeout oldTimeout (tc_timers s)\<rparr>)
      in s1\<lparr>tc_cacheTimeout := mdelete key (tc_cacheTimeout s1)\<rparr>)"

fun clearTimeouts :: "nat list \<Rightarrow> 'k timers \<Rightarrow> 'k timers" where
  "clearTimeouts [] T = T"
| "clearTimeouts (h # hs) T = clearTimeouts hs (js_clearTimeout h T)"

definition TieredCache_clearAllTimeouts :: "('k, 't) tiered_cache \<Rightarrow> ('k, 't) tiered_cache" where
  "TieredCache_clearAllTimeouts s =
     s\<lparr>tc_timers := clearTimeouts (mvalues (tc_cacheTimeout s)) (tc_timers s),
       tc_cacheTimeout := mclear (tc_cacheTimeout s)\<rparr>"

text \<open>
  \<^verbatim>\<open>buildStatus(rebuild)\<close>: the \<^verbatim>\<open>reduce\<close> over the stored values counts each entry
  under its tier, starting from the initial record.
\<close>

definition TieredCache_buildStatus ::
  "bool \<Rightarrow> ('k, 't) tiered_cache \<Rightarrow> 't tiered_cache_status \<times> ('k, 't) tiered_cache" where
  "TieredCache_buildStatus rebuild s =
     (if \<not> rebuild then (tc_statusData s, s)
      else
        (let st = \<lparr>status_size = msize (tc_cache s),
                   status_tiers =
                     foldl (\<lambda>acc e. acc(tier e := Suc (acc (tier e))))
                       getInitialStatusData (mvalues (tc_cache s))\<rparr>
         in (st, s\<lparr>tc_statusData := st\<rparr>)))"

definition TieredCache_status :: "('k, 't) tiered_cache \<Rightarrow> 't tiered_cache_status \<times> ('k, 't) tiered_cache" where
  "TieredCache_status s = TieredCache_buildStatus False s"

text \<open>\<^verbatim>\<open>this.emit('update', this.buildStatus(true))\<close>\<close>

definition tc_emit_update :: "('k, 't) tiered_cache \<Rightarrow> ('k, 't) tiered_cache" where
  "tc_emit_update s = (case TieredCache_buildStatus True s of (st, s1) \<Rightarrow> tc_emit (EmitUpdate st) s1)"

text \<open>
  \<^verbatim>\<open>handleSetValue\<close> stores the entry first and only then asks \<^verbatim>\<open>handleTimeoutValue\<close>;
  when the hook throws, the entry stays stored and the error goes to the caller.
\<close>

definition TieredCache_handleSetValue ::
  "('k, 't) hooks \<Rightarrow> 'k \<Rightarrow> 't \<Rightarrow> jsval \<Rightarrow> int option \<Rightarrow> ('k, 't) tiered_cache
     \<Rightarrow> error option \<times> ('k, 't) tiered_cache" where
  "TieredCache_handleSetValue h key tr d timeout s =
     (let s1 = s\<lparr>tc_cache := mset key (TierEntry tr d) (tc_cache s)\<rparr>
      in case timeout of
           Some t \<Rightarrow> (None, TieredCache_setTimeout key (Some t) s1)
         | None \<Rightarrow>
             (case handleTimeoutValue h key tr d of
                Inl e \<Rightarrow> (Some e, s1)
              | Inr t \<Rightarrow> (None, TieredCache_setTimeout key t s1)))"

definition TieredCache_handleDeleteValue :: "'k \<Rightarrow> ('k, 't) tiered_cache \<Rightarrow> bool \<times> ('k, 't) tiered_cache" where
  "TieredCache_handleDeleteValue key s =
     (let s1 = TieredCache_clearTimeoutKey key s
      in (mhas key (tc_cache s1), s1\<lparr>tc_cache := mdelete key (tc_cache s1)\<rparr>))"

definition TieredCache_get ::
  "('k, 't) hooks \<Rightarrow> 'k \<Rightarrow> 't \<Rightarrow> int option \<Rightarrow> ('k, 't) tiered_cache
     \<Rightarrow> (error + jsval) \<times> ('k, 't) tiered_cache" where
  "TieredCache_get h key tr timeout s =
     (let entry = mget key (tc_cache s)
      in case handleCacheEntry h key tr entry of
           Inl e \<Rightarrow> (Inl e, s)
         | Inr v \<Rightarrow>
             if truthy v then
               (case timeout of
                  Some t \<Rightarrow> (Inr v, TieredCache_setTimeout key (Some t) s)
                | None \<Rightarrow>
                    (case handleTierDefaultTimeout h tr of
                       Inl e \<Rightarrow> (Inl e, s)
                     | Inr t \<Rightarrow> (Inr v, TieredCache_setTimeout key t s)))
             else (Inr v, s))"

definition TieredCache_set ::
  "('k, 't) hooks \<Rightarrow> 'k \<Rightarrow> 't \<Rightarrow> jsval \<Rightarrow> int option \<Rightarrow> ('k, 't) tiered_cache
     \<Rightarrow> error option \<times> ('k, 't) tiered_cache" where
  "TieredCache_set h key tr d timeout s =
     (case TieredCache_handleSetValue h key tr d timeout s of
        (Some e, s1) \<Rightarrow> (Some e, s1)
      | (None, s1) \<Rightarrow> (None, tc_emit_update (tc_emit (EmitSet [key]) s1)))"

fun TieredCache_setEntries_loop ::
  "('k, 't) hooks \<Rightarrow> 't \<Rightarrow> ('k \<times> jsval) list \<Rightarrow> int option \<Rightarrow> ('k, 't) tiered_cache
     \<Rightarrow> error option \<times> ('k, 't) tiered_cache" where
  "TieredCache_setEntries_loop h tr [] timeout s = (None, s)"
| "TieredCache_setEntries_loop h tr ((key, d) # entries) timeout s =
     (case TieredCache_handleSetValue h key tr d timeout s of
        (Some e, s1) \<Rightarrow> (Some e, s1)
      | (None, s1) \<Rightarrow> TieredCache_setEntries_loop h tr entries timeout s1)"

definition TieredCache_setEntries ::
  "('k, 't) hooks \<Rightarrow> 't \<Rightarrow> ('k \<times> jsval) list \<Rightarrow> int option \<Rightarrow> ('k, 't) tiered_cache
     \<Rightarrow> error option \<times> ('k, 't) tiered_cache" where
  "TieredCache_setEntries h tr entriesArray timeout s =
     (case TieredCache_setEntries_loop h tr entriesArray timeout s of
        (Some e, s1) \<Rightarrow> (Some e, s1)
      | (None, s1) \<Rightarrow> (None, tc_emit_update (tc_emit (EmitSet (map fst entriesArray)) s1)))"

definition TieredCache_getTier :: "'k \<Rightarrow> ('k, 't) tiered_cache \<Rightarrow> 't option" where
  "TieredCache_getTier key s = map_option tier (mget key (tc_cache s))"

definition TieredCache_keys :: "('k, 't) tiered_cache \<Rightarrow> map_iterator" where
  "TieredCache_keys s = mentries (tc_cache s)"

definition TieredCache_has :: "'k \<Rightarrow> ('k, 't) tiered_cache \<Rightarrow> bool" where
  "TieredCache_has key s = mhas key (tc_cache s)"

definition TieredCache_size :: "('k, 't) tiered_cache \<Rightarrow> nat" where
  "TieredCache_size s = msize (tc_cache s)"

text \<open>
  \<^verbatim>\<open>clear\<close>: \<^verbatim>\<open>new Set(this.cache.keys())\<close> is the list of keys (the keys of a Map are
  distinct).
\<close>

definition TieredCache_clear :: "('k, 't) tiered_cache \<Rightarrow> ('k, 't) tiered_cache" where
  "TieredCache_clear s =
     (let keys = mkeys (tc_cache s);
          s1 = TieredCache_clearAllTimeouts s;
          s2 = s1\<lparr>tc_cache := mclear (tc_cache s1)\<rparr>
      in tc_emit_update (tc_emit EmitClear (tc_emit (EmitDelete keys) s2)))"

definition TieredCache_delete :: "'k \<Rightarrow> ('k, 't) tiered_cache \<Rightarrow> bool \<times> ('k, 't) tiered_cache" where
  "TieredCache_delete key s =
     (case TieredCache_handleDeleteValue key s of
        (isDeleted, s1) \<Rightarrow>
          if isDeleted then (isDeleted, tc_emit_update (tc_emit (EmitDelete [key]) s1))
          else (isDeleted, s1))"

fun TieredCache_deleteKeys_loop ::
  "'k list \<Rightarrow> 'k list \<times> ('k, 't) tiered_cache \<Rightarrow> 'k list \<times> ('k, 't) tiered_cache" where
  "TieredCache_deleteKeys_loop [] acc = acc"
| "TieredCache_deleteKeys_loop (key # keys) (deleteKeys, s) =
     (let s1 = TieredCache_clearTimeoutKey key s
      in if mhas key (tc_cache s1)
         then TieredCache_deleteKeys_loop keys
                (deleteKeys @ [key], s1\<lparr>tc_cache := mdelete key (tc_cache s1)\<rparr>)
         else TieredCache_deleteKeys_loop keys (deleteKeys, s1))"

definition TieredCache_deleteKeys :: "'k list \<Rightarrow> ('k, 't) tiered_cache \<Rightarrow> nat \<times> ('k, 't) tiered_cache" where
  "TieredCache_deleteKeys keys s =
     (case TieredCache_deleteKeys_loop keys ([], s) of
        (deleteKeys, s1) \<Rightarrow> (length deleteKeys, tc_emit_update (tc_emit (EmitDelete deleteKeys) s1)))"

text \<open>The calls a \<^verbatim>\<open>handleTierTimeout\<close> hook makes; the first one that throws ends the hook.\<close>

fun run_hook_actions ::
  "('k, 't) hooks \<Rightarrow> ('k, 't) hook_action list \<Rightarrow> ('k, 't) tiered_cache
     \<Rightarrow> error option \<times> ('k, 't) tiered_cache" where
  "run_hook_actions h [] s = (None, s)"
| "run_hook_actions h (HandleSetValue key tr d timeout # acts) s =
     (case TieredCache_handleSetValue h key tr d timeout s of
        (Some e, s1) \<Rightarrow> (Some e, s1)
      | (None, s1) \<Rightarrow> run_hook_actions h acts s1)"
| "run_hook_actions h (HandleDeleteValue key # acts) s =
     run_hook_actions h acts (snd (TieredCache_handleDeleteValue key s))"
| "run_hook_actions h (CacheSet key tr d # acts) s =
     run_hook_actions h acts (s\<lparr>tc_cache := mset key (TierEntry tr d) (tc_cache s)\<rparr>)"
| "run_hook_actions h (CacheDelete key # acts) s =
     run_hook_actions h acts (s\<lparr>tc_cache := mdelete key (tc_cache s)\<rparr>)"

text \<open>The body of the \<^verbatim>\<open>try\<close> block of \<^verbatim>\<open>runTimeout\<close>, then the \<^verbatim>\<open>catch\<close> around it.\<close>

definition TieredCache_runTimeout_try ::
  "('k, 't) hooks \<Rightarrow> 'k \<Rightarrow> ('k, 't) tiered_cache \<Rightarrow> error option \<times> ('k, 't) tiered_cache" where
  "TieredCache_runTimeout_try h key s =
     (case handleTierTimeout h key (tc_cache s) of
        (acts, res) \<Rightarrow>
          (case run_hook_actions h acts s of
             (Some e, s1) \<Rightarrow> (Some e, s1)
           | (None, s1) \<Rightarrow>
               (case res of
                  Inl e \<Rightarrow> (Some e, s1)
                | Inr None \<Rightarrow> (None, tc_emit_update (TieredCache_clearTimeoutKey key s1))
                | Inr (Some t) \<Rightarrow> (None, tc_emit_update (TieredCache_setTimeout key (Some t) s1)))))"

definition TieredCache_runTimeout ::
  "('k, 't) hooks \<Rightarrow> 'k \<Rightarrow> ('k, 't) tiered_cache \<Rightarrow> error option \<times> ('k, 't) tiered_cache" where
  "TieredCache_runTimeout h key s =
     (case TieredCache_runTimeout_try h key s of
        (Some e, s1) \<Rightarrow> (None, s1\<lparr>tc_errors := tc_errors s1 @ [e]\<rparr>)
      | (None, s1) \<Rightarrow> (None, s1))"

definition tc_fire :: "('k, 't) hooks \<Rightarrow> nat \<Rightarrow> ('k, 't) tiered_cache \<Rightarrow> error option \<times> ('k, 't) tiered_cache" where
  "tc_fire h hdl s =
     (case js_fire hdl (tc_timers s) of
        (None, T) \<Rightarrow> (None, s)
      | (Some key, T) \<Rightarrow> TieredCache_runTimeout h key (s\<lparr>tc_timers := T\<rparr>))"

text \<open>
  \<^verbatim>\<open>tierValues\<close> and \<^verbatim>\<open>tierEntries\<close> take \<^verbatim>\<open>this.cache.entries()\<close> once, when they are
  called; every \<^verbatim>\<open>next()\<close> of the returned sequence advances that one Map iterator over
  the cache as it is at that moment, and reprojects the entry it finds.
\<close>

definition TieredCache_tierValues :: "'t \<Rightarrow> ('k, 't) tiered_cache \<Rightarrow> map_iterator" where
  "TieredCache_tierValues tr s = mentries (tc_cache s)"

definition TieredCache_tierEntries :: "'t \<Rightarrow> ('k, 't) tiered_cache \<Rightarrow> map_iterator" where
  "TieredCache_tierEntries tr s = mentries (tc_cache s)"

definition TieredCache_tierValues_next ::
  "('k, 't) hooks \<Rightarrow> 't \<Rightarrow> ('k, 't) tiered_cache \<Rightarrow> map_iterator
     \<Rightarrow> (error + jsval option) \<times> map_iterator" where
  "TieredCache_tierValues_next h tr s it =
     (case mnext (tc_cache s) it of
        (None, it') \<Rightarrow> (Inr None, it')
      | (Some (key, e), it') \<Rightarrow>
          (case handleCacheEntry h key tr (Some e) of
             Inl err \<Rightarrow> (Inl err, it')
           | Inr v \<Rightarrow> (Inr (Some v), it')))"

definition TieredCache_tierEntries_next ::
  "('k, 't) hooks \<Rightarrow> 't \<Rightarrow> ('k, 't) tiered_cache \<Rightarrow> map_iterator
     \<Rightarrow> (error + ('k \<times> jsval) option) \<times> map_iterator" where
  "TieredCache_tierEntries_next h tr s it =
     (case mnext (tc_cache s) it of
        (None, it') \<Rightarrow> (Inr None, it')
      | (Some (key, e), it') \<Rightarrow>
          (case handleCacheEntry h key tr (Some e) of
             Inl err \<Rightarrow> (Inl err, it')
           | Inr v \<Rightarrow> (Inr (Some (key, v)), it')))"

text \<open>
  \<^verbatim>\<open>for await (const x of seq)\<close> run to its end while the cache stays as it is in
  \<open>s\<close>: the values the sequence yields, or the error of the first \<^verbatim>\<open>next()\<close> that
  rejects.
\<close>

function TieredCache_tierEntries_drain ::
  "('k, 't) hooks \<Rightarrow> 't \<Rightarrow> ('k, 't) tiered_cache \<Rightarrow> map_iterator \<Rightarrow> error + ('k \<times> jsval) list" where
  "TieredCache_tierEntries_drain h tr s it =
     (case TieredCache_tierEntries_next h tr s it of
        (Inl err, it') \<Rightarrow> Inl err
      | (Inr None, it') \<Rightarrow> Inr []
      | (Inr (Some x), it') \<Rightarrow>
          (case TieredCache_tierEntries_drain h tr s it' of
             Inl err \<Rightarrow> Inl err
           | Inr xs \<Rightarrow> Inr (x # xs)))"
  by pat_completeness auto
termination
proof (relation "measure (\<lambda>(h, tr, s, it). case it of None \<Rightarrow> 0 | Some i \<Rightarrow> Suc (length (tc_cache s) - i))")
  show "wf (measure (\<lambda>(h :: ('k, 't) hooks, tr :: 't, s :: ('k, 't) tiered_cache, it :: map_iterator).
        case it of None \<Rightarrow> 0 | Some i \<Rightarrow> Suc (length (tc_cache s) - i)))"
    by simp
next
  fix h :: "('k, 't) hooks" and tr :: 't and s :: "('k, 't) tiered_cache" and it :: map_iterator
    and r it' ro x
  assume a: "(r, it') = TieredCache_tierEntries_next h tr s it" "r = Inr ro" "ro = Some x"
  have skip: "skip_empty m i = Some (y, j) \<Longrightarrow> i < j \<and> j \<le> i + length m"
    for m :: "('k \<times> 't tier_entry) option list" and i y j
    by (induction m i rule: skip_empty.induct) auto
  from a obtain i where it: "it = Some i"
    by (cases it) (auto simp: TieredCache_tierEntries_next_def mnext_def)
  from a it obtain y j where sk: "skip_empty (drop i (tc_cache s)) i = Some (y, j)" and it': "it' = Some j"
    by (auto simp: TieredCache_tierEntries_next_def mnext_def split: option.splits sum.splits prod.splits)
  from skip[OF sk] have "i < j \<and> j \<le> length (tc_cache s)" by auto
  with it it' show "((h, tr, s, it'), (h, tr, s, it)) \<in> measure (\<lambda>(h, tr, s, it). case it of None \<Rightarrow> 0 | Some i \<Rightarrow> Suc (length (tc_cache s) - i))"
    by auto
qed

declare TieredCache_tierEntries_drain.simps [simp del]

function TieredCache_tierValues_drain ::
  "('k, 't) hooks \<Rightarrow> 't \<Rightarrow> ('k, 't) tiered_cache \<Rightarrow> map_iterator \<Rightarrow> error + jsval list" where
  "TieredCache_tierValues_drain h tr s it =
     (case TieredCache_tierValues_next h tr s it of
        (Inl err, it') \<Rightarrow> Inl err
      | (Inr None, it') \<Rightarrow> Inr []
      | (Inr (Some x), it') \<Rightarrow>
          (case TieredCache_tierValues_drain h tr s it' of
             Inl err \<Rightarrow> Inl err
           | Inr xs \<Rightarrow> Inr (x # xs)))"
  by pat_completeness auto
termination
proof (relation "measure (\<lambda>(h, tr, s, it). case it of None \<Rightarrow> 0 | Some i \<Rightarrow> Suc (length (tc_cache s) - i))")
  show "wf (measure (\<lambda>(h :: ('k, 't) hooks, tr :: 't, s :: ('k, 't) tiered_cache, it :: map_iterator).
        case it of None \<Rightarrow> 0 | Some i \<Rightarrow> Suc (length (tc_cache s) - i)))"
    by simp
next
  fix h :: "('k, 't) hooks" and tr :: 't and s :: "('k, 't) tiered_cache" and it :: map_iterator
    and r it' ro x
  assume a: "(r, it') = TieredCache_tierValues_next h tr s it" "r = Inr ro" "ro = Some x"
  have skip: "skip_empty m i = Some (y, j) \<Longrightarrow> i < j \<and> j \<le> i + length m"
    for m :: "('k \<times> 't tier_entry) option list" and i y j
    by (induction m i rule: skip_empty.induct) auto
  from a obtain i where it: "it = Some i"
    by (cases it) (auto simp: TieredCache_tierValues_next_def mnext_def)
  from a it obtain y j where sk: "skip_empty (drop i (tc_cache s)) i = Some (y, j)" and it': "it' = Some j"
    by (auto simp: TieredCache_tierValues_next_def mnext_def split: option.splits sum.splits prod.splits)
  from skip[OF sk] have "i < j \<and> j \<le> length (tc_cache s)" by auto
  with it it' show "((h, tr, s, it'), (h, tr, s, it)) \<in> measure (\<lambda>(h, tr, s, it). case it of None \<Rightarrow> 0 | Some i \<Rightarrow> Suc (length (tc_cache s) - i))"
    by auto
qed

declare TieredCache_tierValues_drain.simps [simp del]

text \<open>
  The public operations and the firing of a timer. \<open>tc_exec\<close> gives the error thrown
  to the caller, if any, and the state left behind; \<open>tc_run\<close> runs a sequence of them.
\<close>

datatype ('k, 't) tc_op =
    TcGet 'k 't "int option"
  | TcSet 'k 't jsval "int option"
  | TcSetEntries 't "('k \<times> jsval) list" "int option"
  | TcDelete 'k
  | TcDeleteKeys "'k list"
  | TcClear
  | TcGetTier 'k
  | TcHas 'k
  | TcSize
  | TcStatus
  | TcFire nat

fun tc_exec :: "('k, 't) hooks \<Rightarrow> ('k, 't) tc_op \<Rightarrow> ('k, 't) tiered_cache \<Rightarrow> error option \<times> ('k, 't) tiered_cache" where
  "tc_exec h (TcGet key tr timeout) s =
     (case TieredCache_get h key tr timeout s of (Inl e, s1) \<Rightarrow> (Some e, s1) | (Inr v, s1) \<Rightarrow> (None, s1))"
| "tc_exec h (TcSet key tr d timeout) s = TieredCache_set h key tr d timeout s"
| "tc_exec h (TcSetEntries tr entries timeout) s = TieredCache_setEntries h tr entries timeout s"
| "tc_exec h (TcDelete key) s = (None, snd (TieredCache_delete key s))"
| "tc_exec h (TcDeleteKeys keys) s = (None, snd (TieredCache_deleteKeys keys s))"
| "tc_exec h TcClear s = (None, TieredCache_clear s)"
| "tc_exec h (TcGetTier key) s = (None, s)"
| "tc_exec h (TcHas key) s = (None, s)"
| "tc_exec h TcSize s = (None, s)"
| "tc_exec h TcStatus s = (None, snd (TieredCache_status s))"
| "tc_exec h (TcFire hdl) s = tc_fire h hdl s"

fun tc_run :: "('k, 't) hooks \<Rightarrow> ('k, 't) tc_op list \<Rightarrow> ('k, 't) tiered_cache \<Rightarrow> error list \<times> ('k, 't) tiered_cache" where
  "tc_run h [] s = ([], s)"
| "tc_run h (op # ops) s =
     (case tc_exec h op s of
        (r, s1) \<Rightarrow>
          (case tc_run h ops s1 of
             (errs, s2) \<Rightarrow> ((case r of None \<Rightarrow> [] | Some e \<Rightarrow> [e]) @ errs, s2)))"

section \<open>The reference strategy: DateTieredCache\<close>

datatype date_tier = Model | Object | StringValue

text \<open>
  Built-ins of the runtime the strategy calls whose behaviour on arbitrary input is not
  part of this development: \<^verbatim>\<open>JSON.parse\<close>, and the conversion \<^verbatim>\<open>new Date(v)\<close> performs
  when \<open>v\<close> is a string, an array or an object (\<^verbatim>\<open>Date.parse\<close> of its string form).
\<close>

record js_builtins =
  JSON_parse :: "jsval \<Rightarrow> error + jsval"
  Date_parse :: "jsval \<Rightarrow> timeval"

definition trunc :: "rat \<Rightarrow> int" where
  "trunc r = (if r < 0 then - \<lfloor>- r\<rfloor> else \<lfloor>r\<rfloor>)"

fun TimeClip :: "jsnum \<Rightarrow> timeval" where
  "TimeClip (Num r) = (if \<bar>r\<bar> > 8640000000000000 then InvalidTime else TimeMs (trunc r))"
| "TimeClip NaN = InvalidTime"
| "TimeClip PosInf = InvalidTime"
| "TimeClip NegInf = InvalidTime"

text \<open>\<^verbatim>\<open>new Date(v)\<close>, as its time value.\<close>

fun new_Date :: "js_builtins \<Rightarrow> jsval \<Rightarrow> timeval" where
  "new_Date js JUndefined = InvalidTime"
| "new_Date js JNull = TimeMs 0"
| "new_Date js (JBool b) = TimeMs (if b then 1 else 0)"
| "new_Date js (JNum n) = TimeClip n"
| "new_Date js (JDate t) = t"
| "new_Date js (JStr s) = Date_parse js (JStr s)"
| "new_Date js (JObj ps) = Date_parse js (JObj ps)"
| "new_Date js (JArr vs) = Date_parse js (JArr vs)"

text \<open>\<^verbatim>\<open>v.name\<close> and \<^verbatim>\<open>v?.name\<close> for a property name that only plain objects can carry.\<close>

fun get_prop :: "jsval \<Rightarrow> string \<Rightarrow> error + jsval" where
  "get_prop JUndefined name = Inl TypeError"
| "get_prop JNull name = Inl TypeError"
| "get_prop (JObj ps) name = Inr (case map_of ps name of None \<Rightarrow> JUndefined | Some v \<Rightarrow> v)"
| "get_prop v name = Inr JUndefined"

fun opt_prop :: "jsval \<Rightarrow> string \<Rightarrow> jsval" where
  "opt_prop (JObj ps) name = (case map_of ps name of None \<Rightarrow> JUndefined | Some v \<Rightarrow> v)"
| "opt_prop v name = JUndefined"

text \<open>\<^verbatim>\<open>v.getTime()\<close>: only a \<^verbatim>\<open>Date\<close> has the method.\<close>

fun getTime :: "jsval \<Rightarrow> error + timeval" where
  "getTime (JDate t) = Inr t"
| "getTime v = Inl TypeError"

fun num_of_time :: "timeval \<Rightarrow> jsnum" where
  "num_of_time (TimeMs n) = Num (of_int n)"
| "num_of_time InvalidTime = NaN"

definition cdate_obj :: "timeval \<Rightarrow> jsval" where
  "cdate_obj t = JObj [(''$cdate'', JNum (num_of_time t))]"

text \<open>Decimal digits of an integer, as \<^verbatim>\<open>Number.prototype.toString\<close> prints it.\<close>

function show_nat :: "nat \<Rightarrow> string" where
  "show_nat n = (if n < 10 then [''0123456789'' ! n] else show_nat (n div 10) @ [''0123456789'' ! (n mod 10)])"
  by pat_completeness auto
termination
  by (relation "measure id") auto

declare show_nat.simps [simp del]

definition show_int :: "int \<Rightarrow> string" where
  "show_int i = (if i < 0 then CHR ''-'' # show_nat (nat (- i)) else show_nat (nat i))"

text \<open>\<^verbatim>\<open>t.toString()\<close> and \<^verbatim>\<open>JSON.stringify({$cdate: t})\<close> for the number of a time value.\<close>

fun time_toString :: "timeval \<Rightarrow> string" where
  "time_toString (TimeMs n) = show_int n"
| "time_toString InvalidTime = ''NaN''"

fun JSON_stringify_cdate :: "timeval \<Rightarrow> string" where
  "JSON_stringify_cdate (TimeMs n) = ''{\"$cdate\":'' @ show_int n @ ''}''"
| "JSON_stringify_cdate InvalidTime = ''{\"$cdate\":null}''"

definition DateTimeout_Model :: int where "DateTimeout_Model = 100"
definition DateTimeout_Object :: int where "DateTimeout_Object = 100"
definition DateTimeout_StringValue :: int where "DateTimeout_StringValue = 100"

definition getModel :: "js_builtins \<Rightarrow> string \<Rightarrow> date_tier tier_entry \<Rightarrow> error + jsval" where
  "getModel js key cache =
     (case tier cache of
        Model \<Rightarrow> Inr (data cache)
      | Object \<Rightarrow>
          (case get_prop (data cache) ''$cdate'' of
             Inl e \<Rightarrow> Inl e
           | Inr v \<Rightarrow> Inr (JDate (new_Date js v)))
      | StringValue \<Rightarrow>
          (case JSON_parse js (data cache) of
             Inl e \<Rightarrow> Inl e
           | Inr p \<Rightarrow> Inr (JDate (new_Date js (opt_prop p ''$cdate'')))))"

definition getStringValue :: "js_builtins \<Rightarrow> string \<Rightarrow> date_tier tier_entry \<Rightarrow> error + jsval" where
  "getStringValue js key cache =
     (case tier cache of
        Model \<Rightarrow>
          (case getTime (data cache) of
             Inl e \<Rightarrow> Inl e
           | Inr t \<Rightarrow> Inr (JStr (JSON_stringify_cdate t)))
      | Object \<Rightarrow>
          (case get_prop (data cache) ''$cdate'' of
             Inl e \<Rightarrow> Inl e
           | Inr v \<Rightarrow> Inr (JStr (JSON_stringify_cdate (new_Date js v))))
      | StringValue \<Rightarrow> Inr (data cache))"

definition getObject :: "js_builtins \<Rightarrow> string \<Rightarrow> date_tier tier_entry \<Rightarrow> error + jsval" where
  "getObject js key cache =
     (case tier cache of
        Model \<Rightarrow>
          (case getTime (data cache) of
             Inl e \<Rightarrow> Inl e
           | Inr t \<Rightarrow> Inr (cdate_obj t))
      | Object \<Rightarrow> Inr (data cache)
      | StringValue \<Rightarrow> JSON_parse js (data cache))"

text \<open>
  \<^verbatim>\<open>handleCacheEntry\<close>; the \<^verbatim>\<open>default\<close> branch of its switch cannot be reached with a
  tier of the closed type.
\<close>

definition DateTieredCache_handleCacheEntry ::
  "js_builtins \<Rightarrow> string \<Rightarrow> date_tier \<Rightarrow> date_tier tier_entry option \<Rightarrow> error + jsval" where
  "DateTieredCache_handleCacheEntry js key targetTier cacheEntry =
     (case cacheEntry of
        None \<Rightarrow> Inr JUndefined
      | Some c \<Rightarrow>
          (case targetTier of
             Model \<Rightarrow> getModel js key c
           | Object \<Rightarrow> getObject js key c
           | StringValue \<Rightarrow> getStringValue js key c))"

definition DateTieredCache_handleTierDefaultTimeout :: "date_tier \<Rightarrow> error + int option" where
  "DateTieredCache_handleTierDefaultTimeout type =
     (case type of
        Model \<Rightarrow> Inr (Some DateTimeout_Model)
      | Object \<Rightarrow> Inr (Some DateTimeout_Object)
      | StringValue \<Rightarrow> Inr (Some DateTimeout_StringValue))"

definition DateTieredCache_handleTimeoutValue :: "string \<Rightarrow> date_tier \<Rightarrow> jsval \<Rightarrow> error + int option" where
  "DateTieredCache_handleTimeoutValue key tr d = DateTieredCache_handleTierDefaultTimeout tr"

definition DateTieredCache_handleTierTimeout ::
  "js_builtins \<Rightarrow> string \<Rightarrow> (string, date_tier tier_entry) jsmap
     \<Rightarrow> (string, date_tier) hook_action list \<times> (error + int option)" where
  "DateTieredCache_handleTierTimeout js key cache =
     (case mget key cache of
        None \<Rightarrow> ([], Inr None)
      | Some c \<Rightarrow>
          (case tier c of
             Model \<Rightarrow>
               (case getTime (data c) of
                  Inl e \<Rightarrow> ([], Inl e)
                | Inr t \<Rightarrow>
                    ([HandleSetValue key Object (cdate_obj t) None],
                     DateTieredCache_handleTierDefaultTimeout Object))
           | Object \<Rightarrow>
               (case get_prop (data c) ''$cdate'' of
                  Inl e \<Rightarrow> ([], Inl e)
                | Inr v \<Rightarrow>
                    ([HandleSetValue key StringValue (JStr (time_toString (new_Date js v))) None],
                     DateTieredCache_handleTierDefaultTimeout StringValue))
           | StringValue \<Rightarrow> ([CacheDelete key], Inr None)))"

definition DateTieredCache :: "js_builtins \<Rightarrow> (string, date_tier) hooks" where
  "DateTieredCache js =
     \<lparr>handleCacheEntry = DateTieredCache_handleCacheEntry js,
      handleTimeoutValue = DateTieredCache_handleTimeoutValue,
      handleTierTimeout = DateTieredCache_handleTierTimeout js,
      handleTierDefaultTimeout = DateTieredCache_handleTierDefaultTimeout\<rparr>"

instantiation date_tier :: finite
begin
instance
proof
  have univ: "(UNIV :: date_tier set) = {Model, Object, StringValue}"
    using date_tier.exhaust by auto
  show "finite (UNIV :: date_tier set)"
    by (subst univ) simp
qed
end

section \<open>Invariants and auxiliary notions\<close>

text \<open>
  Well-formedness of the timer table, the link between the recorded timer handles and the
  pending timers, the invariants of the two timer-driven caches, and the status that a tier
  map determines.
\<close>

definition timers_ok :: "'k timers \<Rightarrow> bool" where
  "timers_ok T = (distinct (map fst (pending T)) \<and> (\<forall>t\<in>set (pending T). fst t < next_handle T))"

definition recorded_by :: "('k \<Rightarrow> nat option) \<Rightarrow> 'k timers \<Rightarrow> bool" where
  "recorded_by rec T = (\<forall>t\<in>set (pending T). rec (fst (snd t)) = Some (fst t))"

definition etc_recorded :: "'k expire_timeout_cache \<Rightarrow> 'k \<Rightarrow> nat option" where
  "etc_recorded s k = (case mget k (etc_cacheTimeout s) of None \<Rightarrow> None | Some obj \<Rightarrow> to_timeout obj)"

definition etc_inv :: "'k expire_timeout_cache \<Rightarrow> bool" where
  "etc_inv s = (timers_ok (etc_timers s) \<and> recorded_by (etc_recorded s) (etc_timers s))"



text \<open>
  What a sweep at time \<open>now\<close> from state \<open>s\<close> leaves in \<open>s'\<close>: every expired key with
  a truthy payload is gone from the cache, every expired key is no longer tracked, every
  other key is untouched in both Maps, and the events emitted are \<open>pre\<close> followed by one
  \<^verbatim>\<open>expires\<close> event per swept entry.
\<close>

definition swept_from :: "int \<Rightarrow> 'k expire_cache \<Rightarrow> 'k cache_event list \<Rightarrow> 'k expire_cache \<Rightarrow> bool" where
  "swept_from now s pre s' =
     ((\<forall>k. ec_expired now s k \<and> truthy_opt (mget k (ec_cache s)) \<longrightarrow> mget k (ec_cache s') = None) \<and>
      (\<forall>k. ec_expired now s k \<longrightarrow> mget k (ec_cacheTtl s') = None) \<and>
      (\<forall>k. \<not> ec_expired now s k \<longrightarrow>
            mget k (ec_cache s') = mget k (ec_cache s) \<and>
            mget k (ec_cacheTtl s') = mget k (ec_cacheTtl s)) \<and>
      ec_events s' = ec_events s @ pre @ map (\<lambda>p. OnExpires (fst p) (snd p)) (ec_swept now s))"

definition tc_inv :: "('k, 't) tiered_cache \<Rightarrow> bool" where
  "tc_inv s = (timers_ok (tc_timers s) \<and> recorded_by (\<lambda>k. mget k (tc_cacheTimeout s)) (tc_timers s))"

definition timers_le :: "'k timers \<Rightarrow> 'k timers \<Rightarrow> bool" where
  "timers_le T T' =
     (next_handle T \<le> next_handle T' \<and>
      (\<forall>t\<in>set (pending T'). t \<in> set (pending T) \<or> next_handle T \<le> fst t))"

definition tc_step_ok :: "('k, 't) tiered_cache \<Rightarrow> ('k, 't) tiered_cache \<Rightarrow> bool" where
  "tc_step_ok s s' =
     (tc_errors s' = tc_errors s \<and> (tc_inv s \<longrightarrow> tc_inv s') \<and> timers_le (tc_timers s) (tc_timers s'))"

definition status_of :: "('k, 't tier_entry) jsmap \<Rightarrow> 't tiered_cache_status" where
  "status_of c =
     \<lparr>status_size = msize c,
      status_tiers = foldl (\<lambda>acc e. acc(tier e := Suc (acc (tier e)))) getInitialStatusData (mvalues c)\<rparr>"

definition status_fresh :: "('k, 't) tiered_cache \<Rightarrow> bool" where
  "status_fresh s = (tc_statusData s = status_of (tc_cache s))"

text \<open>
  For evaluating the strategy on concrete inputs: a runtime whose \<^verbatim>\<open>JSON.parse\<close> is a
  finite table of the texts it is asked to parse, and whose \<^verbatim>\<open>Date.parse\<close> recognises
  nothing. Each evaluation below lists in its table what \<^verbatim>\<open>JSON.parse\<close> returns for the
  texts that evaluation parses.
\<close>

definition js_table :: "(string \<times> jsval) list \<Rightarrow> js_builtins" where
  "js_table tbl =
     \<lparr>JSON_parse =
        (\<lambda>v. case v of
                JStr s \<Rightarrow> (case map_of tbl s of None \<Rightarrow> Inl SyntaxError | Some r \<Rightarrow> Inr r)
              | _ \<Rightarrow> Inl SyntaxError),
      Date_parse = (\<lambda>v. InvalidTime)\<rparr>"

text \<open>
  What a tier sequence should yield for a list of stored entries: each entry reprojected
  into the tier, in order, up to the first reprojection that throws.
\<close>

fun reproject_all ::
  "('k, 't) hooks \<Rightarrow> 't \<Rightarrow> ('k \<times> 't tier_entry) list \<Rightarrow> error + ('k \<times> jsval) list" where
  "reproject_all h tr [] = Inr []"
| "reproject_all h tr ((key, e) # es) =
     (case handleCacheEntry h key tr (Some e) of
        Inl err \<Rightarrow> Inl err
      | Inr v \<Rightarrow>
          (case reproject_all h tr es of
             Inl err \<Rightarrow> Inl err
           | Inr vs \<Rightarrow> Inr ((key, v) # vs)))"

section \<open>The tiered cache engine with methods that act on the cache\<close>

text \<open>
  The four abstract methods are written in a subclass and run with \<^verbatim>\<open>this\<close> bound to
  the cache. A subclass reaches the protected Map \<^verbatim>\<open>cache\<close>, the protected
  \<^verbatim>\<open>handleSetValue\<close>, \<^verbatim>\<open>handleDeleteValue\<close> and \<^verbatim>\<open>buildStatus\<close>, and every public member; the
  comment in \<^verbatim>\<open>handleCacheEntry\<close> of the reference strategy describes an override that builds
  the entry on a miss and stores it with \<^verbatim>\<open>handleSetValue\<close>. In this generality a method is a
  function from the state of the cache to its result and the state it leaves behind; it may
  change the state and then throw.
\<close>

record ('k, 't) methods =
  m_handleCacheEntry ::
    "'k \<Rightarrow> 't \<Rightarrow> 't tier_entry option \<Rightarrow> ('k, 't) tiered_cache
       \<Rightarrow> (error + jsval) \<times> ('k, 't) tiered_cache"
  m_handleTimeoutValue ::
    "'k \<Rightarrow> 't \<Rightarrow> jsval \<Rightarrow> ('k, 't) tiered_cache
       \<Rightarrow> (error + int option) \<times> ('k, 't) tiered_cache"
  m_handleTierTimeout ::
    "'k \<Rightarrow> ('k, 't) tiered_cache \<Rightarrow> (error + int option) \<times> ('k, 't) tiered_cache"
  m_handleTierDefaultTimeout ::
    "'t \<Rightarrow> ('k, 't) tiered_cache \<Rightarrow> (error + int option) \<times> ('k, 't) tiered_cache"

text \<open>
  The members of the engine that call a method, with the state threaded through each call.
  The members that call none (\<^verbatim>\<open>delete\<close>, \<^verbatim>\<open>deleteKeys\<close>, \<^verbatim>\<open>clear\<close>, \<^verbatim>\<open>status\<close>, the timer
  helpers) are those of the section on the engine. \<^verbatim>\<open>get\<close> reads the entry before it calls
  \<^verbatim>\<open>handleCacheEntry\<close>, and sets the timer in the state the methods leave.
\<close>

definition TieredCache_handleSetValue_m ::
  "('k, 't) methods \<Rightarrow> 'k \<Rightarrow> 't \<Rightarrow> jsval \<Rightarrow> int option \<Rightarrow> ('k, 't) tiered_cache
     \<Rightarrow> error option \<times> ('k, 't) tiered_cache" where
  "TieredCache_handleSetValue_m h key tr d timeout s =
     (let s1 = s\<lparr>tc_cache := mset key (TierEntry tr d) (tc_cache s)\<rparr>
      in case timeout of
           Some t \<Rightarrow> (None, TieredCache_setTimeout key (Some t) s1)
         | None \<Rightarrow>
             (case m_handleTimeoutValue h key tr d s1 of
                (Inl e, s2) \<Rightarrow> (Some e, s2)
              | (Inr t, s2) \<Rightarrow> (None, TieredCache_setTimeout key t s2)))"

definition TieredCache_get_m ::
  "('k, 't) methods \<Rightarrow> 'k \<Rightarrow> 't \<Rightarrow> int option \<Rightarrow> ('k, 't) tiered_cache
     \<Rightarrow> (error + jsval) \<times> ('k, 't) tiered_cache" where
  "TieredCache_get_m h key tr timeout s =
     (let entry = mget key (tc_cache s)
      in case m_handleCacheEntry h key tr entry s of
           (Inl e, s1) \<Rightarrow> (Inl e, s1)
         | (Inr v, s1) \<Rightarrow>
             if truthy v then
               (case timeout of
                  Some t \<Rightarrow> (Inr v, TieredCache_setTimeout key (Some t) s1)
                | None \<Rightarrow>
                    (case m_handleTierDefaultTimeout h tr s1 of
                       (Inl e, s2) \<Rightarrow> (Inl e, s2)
                     | (Inr t, s2) \<Rightarrow> (Inr v, TieredCache_setTimeout key t s2)))
             else (Inr v, s1))"

definition TieredCache_set_m ::
  "('k, 't) methods \<Rightarrow> 'k \<Rightarrow> 't \<Rightarrow> jsval \<Rightarrow> int option \<Rightarrow> ('k, 't) tiered_cache
     \<Rightarrow> error option \<times> ('k, 't) tiered_cache" where
  "TieredCache_set_m h key tr d timeout s =
     (case TieredCache_handleSetValue_m h key tr d timeout s of
        (Some e, s1) \<Rightarrow> (Some e, s1)
      | (None, s1) \<Rightarrow> (None, tc_emit_update (tc_emit (EmitSet [key]) s1)))"

fun TieredCache_setEntries_loop_m ::
  "('k, 't) methods \<Rightarrow> 't \<Rightarrow> ('k \<times> jsval) list \<Rightarrow> int option \<Rightarrow> ('k, 't) tiered_cache
     \<Rightarrow> error option \<times> ('k, 't) tiered_cache" where
  "TieredCache_setEntries_loop_m h tr [] timeout s = (None, s)"
| "TieredCache_setEntries_loop_m h tr ((key, d) # entries) timeout s =
     (case TieredCache_handleSetValue_m h key tr d timeout s of
        (Some e, s1) \<Rightarrow> (Some e, s1)
      | (None, s1) \<Rightarrow> TieredCache_setEntries_loop_m h tr entries timeout s1)"

definition TieredCache_setEntries_m ::
  "('k, 't) methods \<Rightarrow> 't \<Rightarrow> ('k \<times> jsval) list \<Rightarrow> int option \<Rightarrow> ('k, 't) tiered_cache
     \<Rightarrow> error option \<times> ('k, 't) tiered_cache" where
  "TieredCache_setEntries_m h tr entriesArray timeout s =
     (case TieredCache_setEntries_loop_m h tr entriesArray timeout s of
        (Some e, s1) \<Rightarrow> (Some e, s1)
      | (None, s1) \<Rightarrow> (None, tc_emit_update (tc_emit (EmitSet (map fst entriesArray)) s1)))"

text \<open>
  \<^verbatim>\<open>runTimeout\<close>: the \<^verbatim>\<open>try\<close> block, then the \<^verbatim>\<open>catch\<close>, which logs the error. Nothing is
  thrown to anyone; the result names the error that was caught, so that a run can tell the
  callbacks that did not reach the end of the \<^verbatim>\<open>try\<close> block.
\<close>

definition TieredCache_runTimeout_try_m ::
  "('k, 't) methods \<Rightarrow> 'k \<Rightarrow> ('k, 't) tiered_cache \<Rightarrow> error option \<times> ('k, 't) tiered_cache" where
  "TieredCache_runTimeout_try_m h key s =
     (case m_handleTierTimeout h key s of
        (Inl e, s1) \<Rightarrow> (Some e, s1)
      | (Inr None, s1) \<Rightarrow> (None, tc_emit_update (TieredCache_clearTimeoutKey key s1))
      | (Inr (Some t), s1) \<Rightarrow> (None, tc_emit_update (TieredCache_setTimeout key (Some t) s1)))"

definition TieredCache_runTimeout_m ::
  "('k, 't) methods \<Rightarrow> 'k \<Rightarrow> ('k, 't) tiered_cache \<Rightarrow> error option \<times> ('k, 't) tiered_cache" where
  "TieredCache_runTimeout_m h key s =
     (case TieredCache_runTimeout_try_m h key s of
        (Some e, s1) \<Rightarrow> (Some e, s1\<lparr>tc_errors := tc_errors s1 @ [e]\<rparr>)
      | (None, s1) \<Rightarrow> (None, s1))"

definition tc_fire_m ::
  "('k, 't) methods \<Rightarrow> nat \<Rightarrow> ('k, 't) tiered_cache \<Rightarrow> error option \<times> ('k, 't) tiered_cache" where
  "tc_fire_m h hdl s =
     (case js_fire hdl (tc_timers s) of
        (None, T) \<Rightarrow> (None, s)
      | (Some key, T) \<Rightarrow> TieredCache_runTimeout_m h key (s\<lparr>tc_timers := T\<rparr>))"

text \<open>
  One \<^verbatim>\<open>next()\<close> of a sequence returned by \<^verbatim>\<open>tierValues\<close> or \<^verbatim>\<open>tierEntries\<close>, for an
  iterator at any position: it too calls \<^verbatim>\<open>handleCacheEntry\<close>.
\<close>

definition TieredCache_tierValues_next_m ::
  "('k, 't) methods \<Rightarrow> 't \<Rightarrow> map_iterator \<Rightarrow> ('k, 't) tiered_cache
     \<Rightarrow> ((error + jsval option) \<times> map_iterator) \<times> ('k, 't) tiered_cache" where
  "TieredCache_tierValues_next_m h tr it s =
     (case mnext (tc_cache s) it of
        (None, it') \<Rightarrow> ((Inr None, it'), s)
      | (Some (key, e), it') \<Rightarrow>
          (case m_handleCacheEntry h key tr (Some e) s of
             (Inl err, s1) \<Rightarrow> ((Inl err, it'), s1)
           | (Inr v, s1) \<Rightarrow> ((Inr (Some v), it'), s1)))"

definition TieredCache_tierEntries_next_m ::
  "('k, 't) methods \<Rightarrow> 't \<Rightarrow> map_iterator \<Rightarrow> ('k, 't) tiered_cache
     \<Rightarrow> ((error + ('k \<times> jsval) option) \<times> map_iterator) \<times> ('k, 't) tiered_cache" where
  "TieredCache_tierEntries_next_m h tr it s =
     (case mnext (tc_cache s) it of
        (None, it') \<Rightarrow> ((Inr None, it'), s)
      | (Some (key, e), it') \<Rightarrow>
          (case m_handleCacheEntry h key tr (Some e) s of
             (Inl err, s1) \<Rightarrow> ((Inl err, it'), s1)
           | (Inr v, s1) \<Rightarrow> ((Inr (Some (key, v)), it'), s1)))"

text \<open>
  The public operations, the firing of a timer, and one step of a tier sequence, each run to
  its end before the next begins (every call awaited). \<open>tcm_exec\<close> gives the error a method
  threw during the step, to the caller or to the \<^verbatim>\<open>catch\<close> of \<^verbatim>\<open>runTimeout\<close>, and the state
  left behind; \<open>tcm_run\<close> gives the outcome of each step and the final state.
\<close>

datatype ('k, 't) tcm_op =
    Op "('k, 't) tc_op"
  | TierValuesNext 't map_iterator
  | TierEntriesNext 't map_iterator

fun tcm_exec ::
  "('k, 't) methods \<Rightarrow> ('k, 't) tcm_op \<Rightarrow> ('k, 't) tiered_cache \<Rightarrow> error option \<times> ('k, 't) tiered_cache" where
  "tcm_exec h (Op (TcGet key tr timeout)) s =
     (case TieredCache_get_m h key tr timeout s of (Inl e, s1) \<Rightarrow> (Some e, s1) | (Inr v, s1) \<Rightarrow> (None, s1))"
| "tcm_exec h (Op (TcSet key tr d timeout)) s = TieredCache_set_m h key tr d timeout s"
| "tcm_exec h (Op (TcSetEntries tr entries timeout)) s = TieredCache_setEntries_m h tr entries timeout s"
| "tcm_exec h (Op (TcDelete key)) s = (None, snd (TieredCache_delete key s))"
| "tcm_exec h (Op (TcDeleteKeys keys)) s = (None, snd (TieredCache_deleteKeys keys s))"
| "tcm_exec h (Op TcClear) s = (None, TieredCache_clear s)"
| "tcm_exec h (Op (TcGetTier key)) s = (None, s)"
| "tcm_exec h (Op (TcHas key)) s = (None, s)"
| "tcm_exec h (Op TcSize) s = (None, s)"
| "tcm_exec h (Op TcStatus) s = (None, snd (TieredCache_status s))"
| "tcm_exec h (Op (TcFire hdl)) s = tc_fire_m h hdl s"
| "tcm_exec h (TierValuesNext tr it) s =
     (case TieredCache_tierValues_next_m h tr it s of
        ((Inl e, it'), s1) \<Rightarrow> (Some e, s1)
      | ((Inr v, it'), s1) \<Rightarrow> (None, s1))"
| "tcm_exec h (TierEntriesNext tr it) s =
     (case TieredCache_tierEntries_next_m h tr it s of
        ((Inl e, it'), s1) \<Rightarrow> (Some e, s1)
      | ((Inr v, it'), s1) \<Rightarrow> (None, s1))"

fun tcm_run ::
  "('k, 't) methods \<Rightarrow> ('k, 't) tcm_op list \<Rightarrow> ('k, 't) tiered_cache
     \<Rightarrow> error option list \<times> ('k, 't) tiered_cache" where
  "tcm_run h [] s = ([], s)"
| "tcm_run h (op # ops) s =
     (case tcm_exec h op s of
        (r, s1) \<Rightarrow> (case tcm_run h ops s1 of (rs, s2) \<Rightarrow> (r # rs, s2)))"

text \<open>
  The steps whose last statement is \<^verbatim>\<open>this.emit('update', this.buildStatus(true))\<close>: a
  \<^verbatim>\<open>set\<close> or \<^verbatim>\<open>setEntries\<close> that returns, a \<^verbatim>\<open>delete\<close> of a stored key, \<^verbatim>\<open>deleteKeys\<close>,
  \<^verbatim>\<open>clear\<close>, and the callback of a pending timer that reaches the end of its \<^verbatim>\<open>try\<close> block.
  \<open>recomputed\<close> is what such a step leaves: the snapshot that the stored entries determine,
  sent in the last event. \<open>status_consistent\<close> is the claim about a snapshot: its
  \<^verbatim>\<open>size\<close> is the sum of its per-tier counts and the number of keys stored, and each
  per-tier count is the number of stored entries tagged with that tier.
\<close>

fun recomputes :: "('k, 't) tcm_op \<Rightarrow> error option \<Rightarrow> ('k, 't) tiered_cache \<Rightarrow> bool" where
  "recomputes (Op (TcSet key tr d timeout)) r s = (r = None)"
| "recomputes (Op (TcSetEntries tr entries timeout)) r s = (r = None)"
| "recomputes (Op (TcDelete key)) r s = mhas key (tc_cache s)"
| "recomputes (Op (TcDeleteKeys keys)) r s = True"
| "recomputes (Op TcClear) r s = True"
| "recomputes (Op (TcFire hdl)) r s = (r = None \<and> fst (js_fire hdl (tc_timers s)) \<noteq> None)"
| "recomputes op r s = False"

definition recomputed :: "('k, 't) tiered_cache \<Rightarrow> bool" where
  "recomputed s =
     (status_fresh s \<and> tc_events s \<noteq> [] \<and> last (tc_events s) = EmitUpdate (tc_statusData s))"

definition status_consistent :: "('k, 't::finite) tiered_cache \<Rightarrow> bool" where
  "status_consistent s =
     (status_size (tc_statusData s) = (\<Sum>t\<in>UNIV. status_tiers (tc_statusData s) t) \<and>
      status_size (tc_statusData s) = TieredCache_size s \<and>
      status_size (tc_statusData s) = length (mkeys (tc_cache s)) \<and>
      (\<forall>t. status_tiers (tc_statusData s) t =
            length (filter (\<lambda>e. tier e = t) (mvalues (tc_cache s)))))"

text \<open>
  A step keeps the counts when it leaves the snapshot, and the per-tier counts of the stored
  entries, as they were. A run is settled when each of its steps recomputes the snapshot or
  keeps the counts.
\<close>

definition keeps_counts :: "('k, 't) tiered_cache \<Rightarrow> ('k, 't) tiered_cache \<Rightarrow> bool" where
  "keeps_counts s s' =
     (status_of (tc_cache s') = status_of (tc_cache s) \<and> tc_statusData s' = tc_statusData s)"

fun tcm_settled :: "('k, 't) methods \<Rightarrow> ('k, 't) tcm_op list \<Rightarrow> ('k, 't) tiered_cache \<Rightarrow> bool" where
  "tcm_settled h [] s = True"
| "tcm_settled h (op # ops) s =
     (case tcm_exec h op s of
        (r, s1) \<Rightarrow> (recomputes op r s \<or> keeps_counts s s1) \<and> tcm_settled h ops s1)"

text \<open>
  The steps that call no method; the reads (\<^verbatim>\<open>get\<close> and the steps of the tier sequences); a
  strategy whose \<^verbatim>\<open>handleCacheEntry\<close> and \<^verbatim>\<open>handleTierDefaultTimeout\<close>, the methods the reads
  call, change neither the stored entries nor the snapshot; and a run in which no method
  error ended a step other than a read.
\<close>

fun calls_no_method :: "('k, 't) tcm_op \<Rightarrow> bool" where
  "calls_no_method (Op (TcGet key tr timeout)) = False"
| "calls_no_method (Op (TcSet key tr d timeout)) = False"
| "calls_no_method (Op (TcSetEntries tr entries timeout)) = False"
| "calls_no_method (Op (TcFire hdl)) = False"
| "calls_no_method (TierValuesNext tr it) = False"
| "calls_no_method (TierEntriesNext tr it) = False"
| "calls_no_method op = True"

fun is_read :: "('k, 't) tcm_op \<Rightarrow> bool" where
  "is_read (Op (TcGet key tr timeout)) = True"
| "is_read (TierValuesNext tr it) = True"
| "is_read (TierEntriesNext tr it) = True"
| "is_read op = False"

definition reads_keep_storage :: "('k, 't) methods \<Rightarrow> bool" where
  "reads_keep_storage h =
     ((\<forall>key tr entry s.
         tc_cache (snd (m_handleCacheEntry h key tr entry s)) = tc_cache s \<and>
         tc_statusData (snd (m_handleCacheEntry h key tr entry s)) = tc_statusData s) \<and>
      (\<forall>tr s.
         tc_cache (snd (m_handleTierDefaultTimeout h tr s)) = tc_cache s \<and>
         tc_statusData (snd (m_handleTierDefaultTimeout h tr s)) = tc_statusData s))"

fun tcm_clean :: "('k, 't) tcm_op list \<Rightarrow> error option list \<Rightarrow> bool" where
  "tcm_clean (op # ops) (r # rs) = ((is_read op \<or> r = None) \<and> tcm_clean ops rs)"
| "tcm_clean ops rs = True"

text \<open>
  A strategy given by \<open>hooks\<close>, as methods: three of them leave the state alone, and
  \<^verbatim>\<open>handleTierTimeout\<close> makes its calls.
\<close>

definition lift_hooks :: "('k, 't) hooks \<Rightarrow> ('k, 't) methods" where
  "lift_hooks h =
     \<lparr>m_handleCacheEntry = (\<lambda>key tr entry s. (handleCacheEntry h key tr entry, s)),
      m_handleTimeoutValue = (\<lambda>key tr d s. (handleTimeoutValue h key tr d, s)),
      m_handleTierTimeout =
        (\<lambda>key s. case handleTierTimeout h key (tc_cache s) of
                    (acts, res) \<Rightarrow>
                      (case run_hook_actions h acts s of
                         (Some e, s1) \<Rightarrow> (Inl e, s1)
                       | (None, s1) \<Rightarrow> (res, s1))),
      m_handleTierDefaultTimeout = (\<lambda>tr s. (handleTierDefaultTimeout h tr, s))\<rparr>"

section \<open>Round trips between the tiers of the reference strategy: definitions\<close>

text \<open>
  Converting the data of an entry stored in tier \<open>a\<close> to tier \<open>b\<close>, and the result back to
  tier \<open>a\<close>, both with handleCacheEntry of the reference strategy; and the representation
  the strategy itself produces for the timestamp \<open>n\<close> in each tier.
\<close>

definition round_trip :: "js_builtins \<Rightarrow> string \<Rightarrow> date_tier \<Rightarrow> date_tier \<Rightarrow> jsval \<Rightarrow> error + jsval" where
  "round_trip js key a b d =
     (case DateTieredCache_handleCacheEntry js key b (Some (TierEntry a d)) of
        Inl e \<Rightarrow> Inl e
      | Inr d' \<Rightarrow> DateTieredCache_handleCacheEntry js key a (Some (TierEntry b d')))"

fun canonical :: "date_tier \<Rightarrow> int \<Rightarrow> jsval" where
  "canonical Model n = JDate (TimeMs n)"
| "canonical Object n = cdate_obj (TimeMs n)"
| "canonical StringValue n = JStr (JSON_stringify_cdate (TimeMs n))"

section \<open>Facts about the Map model\<close>

lemma live_append: "live (a @ b) = live a @ live b"
  by (induction a rule: live.induct) auto

lemma live_mdelete: "live (mdelete k m) = filter (\<lambda>p. fst p \<noteq> k) (live m)"
  unfolding mdelete_def by (induction m rule: live.induct) auto

lemma live_map_slot_set:
  "live (map (slot_set k v) m) = map (\<lambda>p. if fst p = k then (k, v) else p) (live m)"
  by (induction m rule: live.induct) auto

lemma live_mset:
  "live (mset k v m) =
     (if k \<in> fst ` set (live m) then map (\<lambda>p. if fst p = k then (k, v) else p) (live m)
      else live m @ [(k, v)])"
  by (simp add: mset_def mhas_def live_map_slot_set live_append)

lemma live_mclear: "live (mclear m) = []"
  unfolding mclear_def by (induction m) auto

lemma map_of_overwrite:
  "map_of (map (\<lambda>p. if fst p = k then (k, v) else p) xs) k' =
     (if k' = k then (if k \<in> fst ` set xs then Some v else None) else map_of xs k')"
  by (induction xs) force+

lemma map_of_filter_neq:
  "map_of (filter (\<lambda>p. fst p \<noteq> k) xs) k' = (if k' = k then None else map_of xs k')"
  by (induction xs) auto

lemma mget_mset: "mget k' (mset k v m) = (if k' = k then Some v else mget k' m)"
proof (cases "k \<in> fst ` set (live m)")
  case True
  then show ?thesis
    by (simp add: mget_def live_mset map_of_overwrite)
next
  case False
  then have "map_of (live m) k = None"
    by (simp add: map_of_eq_None_iff)
  with False show ?thesis
    by (simp add: mget_def live_mset map_add_def split: option.splits)
qed

lemma mget_mdelete: "mget k' (mdelete k m) = (if k' = k then None else mget k' m)"
  by (simp add: mget_def live_mdelete map_of_filter_neq)

lemma mget_mclear: "mget k (mclear m) = None"
  by (simp add: mget_def live_mclear)

lemma mhas_mget: "mhas k m = (mget k m \<noteq> None)"
  by (simp add: mhas_def mget_def map_of_eq_None_iff)

lemma mhas_mdelete: "mhas k' (mdelete k m) = (k' \<noteq> k \<and> mhas k' m)"
  by (simp add: mhas_mget mget_mdelete)

lemma mhas_mset: "mhas k' (mset k v m) = (k' = k \<or> mhas k' m)"
  by (simp add: mhas_mget mget_mset)

lemma mkeys_mdelete: "mkeys (mdelete k m) = filter (\<lambda>x. x \<noteq> k) (mkeys m)"
  by (simp add: mkeys_def live_mdelete filter_map comp_def)

lemma mkeys_mset:
  "mkeys (mset k v m) = (if k \<in> set (mkeys m) then mkeys m else mkeys m @ [k])"
proof -
  have "map fst (map (\<lambda>p. if fst p = k then (k, v) else p) xs) = map fst xs" for xs
    by (induction xs) auto
  then show ?thesis
    by (simp add: mkeys_def live_mset)
qed

lemma distinct_mkeys_mset: "distinct (mkeys m) \<Longrightarrow> distinct (mkeys (mset k v m))"
  by (simp add: mkeys_mset)

lemma distinct_mkeys_mdelete: "distinct (mkeys m) \<Longrightarrow> distinct (mkeys (mdelete k m))"
  by (simp add: mkeys_mdelete)

lemma mkeys_mclear: "mkeys (mclear m) = []"
  by (simp add: mkeys_def live_mclear)

lemma mget_distinct: "distinct (mkeys m) \<Longrightarrow> (k, v) \<in> set (live m) \<longleftrightarrow> mget k m = Some v"
  by (simp add: mkeys_def mget_def)


section \<open>The sweep of the lazy-expiring cache\<close>

lemma ec_notify_cache [simp]: "ec_cache (ExpireCache_notifyExpires es s) = ec_cache s"
  by (induction es s rule: ExpireCache_notifyExpires.induct) (auto simp: ec_emit_def)

lemma ec_notify_ttl [simp]: "ec_cacheTtl (ExpireCache_notifyExpires es s) = ec_cacheTtl s"
  by (induction es s rule: ExpireCache_notifyExpires.induct) (auto simp: ec_emit_def)

lemma ec_notify_default [simp]:
  "ec_defaultExpireMs (ExpireCache_notifyExpires es s) = ec_defaultExpireMs s"
  by (induction es s rule: ExpireCache_notifyExpires.induct) (auto simp: ec_emit_def)

lemma ec_notify_events:
  "ec_events (ExpireCache_notifyExpires es s) = ec_events s @ map (\<lambda>p. OnExpires (fst p) (snd p)) es"
  by (induction es s rule: ExpireCache_notifyExpires.induct) (auto simp: ec_emit_def)

lemma ec_loop_frame:
  "ExpireCache_cleanExpired_loop now es (s, del) = (s', del') \<Longrightarrow>
     ec_events s' = ec_events s \<and> ec_defaultExpireMs s' = ec_defaultExpireMs s"
proof (induction es arbitrary: s del)
  case Nil
  then show ?case by simp
next
  case (Cons p es)
  obtain key expire where p: "p = (key, expire)" by (cases p)
  from Cons.prems show ?case
    unfolding p
    by (auto split: option.splits if_splits dest!: Cons.IH)
qed

lemma ec_loop_ttl:
  "ExpireCache_cleanExpired_loop now es (s, del) = (s', del') \<Longrightarrow>
     mget k (ec_cacheTtl s') =
       (if \<exists>p\<in>set es. fst p = k \<and> ttl_past now (snd p) then None else mget k (ec_cacheTtl s))"
proof (induction es arbitrary: s del)
  case Nil
  then show ?case by simp
next
  case (Cons p es)
  obtain key expire where p: "p = (key, expire)" by (cases p)
  from Cons.prems show ?case
    unfolding p
    by (auto simp: ttl_past_def mget_mdelete split: option.splits if_splits dest!: Cons.IH)
qed

lemma ec_loop_cache:
  "ExpireCache_cleanExpired_loop now es (s, del) = (s', del') \<Longrightarrow>
     mget k (ec_cache s') =
       (if (\<exists>p\<in>set es. fst p = k \<and> ttl_past now (snd p)) \<and> truthy_opt (mget k (ec_cache s))
        then None else mget k (ec_cache s))"
proof (induction es arbitrary: s del)
  case Nil
  then show ?case by simp
next
  case (Cons p es)
  obtain key expire where p: "p = (key, expire)" by (cases p)
  from Cons.prems show ?case
    unfolding p
    by (auto simp: ttl_past_def mget_mdelete split: option.splits if_splits dest!: Cons.IH)
qed

lemma ec_loop_distinct:
  "ExpireCache_cleanExpired_loop now es (s, del) = (s', del') \<Longrightarrow>
     (distinct (mkeys (ec_cache s)) \<longrightarrow> distinct (mkeys (ec_cache s'))) \<and>
     (distinct (mkeys (ec_cacheTtl s)) \<longrightarrow> distinct (mkeys (ec_cacheTtl s')))"
proof (induction es arbitrary: s del)
  case Nil
  then show ?case by simp
next
  case (Cons p es)
  obtain key expire where p: "p = (key, expire)" by (cases p)
  from Cons.prems show ?case
    unfolding p
    by (auto simp: distinct_mkeys_mdelete split: option.splits if_splits dest!: Cons.IH)
qed

lemma map_filter_cong_set:
  "(\<And>x. x \<in> set xs \<Longrightarrow> f x = g x) \<Longrightarrow> List.map_filter f xs = List.map_filter g xs"
proof (induction xs)
  case Nil
  then show ?case by (simp add: List.map_filter_simps)
next
  case (Cons a xs)
  have "f a = g a" "List.map_filter f xs = List.map_filter g xs"
    using Cons by simp_all
  then show ?case by (simp add: List.map_filter_simps split: option.splits)
qed

lemma live_mset_new: "k \<notin> set (mkeys m) \<Longrightarrow> live (mset k v m) = live m @ [(k, v)]"
  by (simp add: live_mset mkeys_def)

lemma ec_loop_del:
  "ExpireCache_cleanExpired_loop now es (s, del) = (s', del') \<Longrightarrow>
   distinct (map fst es) \<Longrightarrow> set (mkeys del) \<inter> fst ` set es = {} \<Longrightarrow>
     live del' = live del @ List.map_filter (sweep_pick now (ec_cache s)) es"
proof (induction es arbitrary: s del)
  case Nil
  then show ?case by (simp add: List.map_filter_simps)
next
  case (Cons p es)
  obtain key expire where p: "p = (key, expire)" by (cases p)
  have fresh: "key \<notin> set (mkeys del)" and rest: "distinct (map fst es)" "key \<notin> fst ` set es"
    and disj: "set (mkeys del) \<inter> fst ` set es = {}"
    using Cons.prems(2,3) unfolding p by auto
  have same: "List.map_filter (sweep_pick now (mdelete key (ec_cache s))) es =
              List.map_filter (sweep_pick now (ec_cache s)) es"
    using rest(2) by (intro map_filter_cong_set) (auto simp: sweep_pick_def mget_mdelete)
  have disj': "set (mkeys (mset key v del)) \<inter> fst ` set es = {}" for v
    using disj rest(2) by (auto simp: mkeys_mset)
  show ?case
  proof (cases "sweep_pick now (ec_cache s) p")
    case None
    with Cons.prems(1) obtain s2 where
      l2: "ExpireCache_cleanExpired_loop now es (s2, del) = (s', del')" and c2: "ec_cache s2 = ec_cache s"
      unfolding p
      by (auto simp: sweep_pick_def ttl_past_def split: option.splits if_splits)
    from Cons.IH[OF l2 rest(1) disj] show ?thesis
      using None by (simp add: List.map_filter_simps c2)
  next
    case (Some kv)
    then obtain e v where ev: "expire = Some e" "e < now" "mget key (ec_cache s) = Some v" "truthy v" "kv = (key, v)"
      unfolding p by (auto simp: sweep_pick_def ttl_past_def split: option.splits if_splits)
    from Cons.prems(1) have
      "ExpireCache_cleanExpired_loop now es
         (s\<lparr>ec_cache := mdelete key (ec_cache s), ec_cacheTtl := mdelete key (ec_cacheTtl s)\<rparr>,
          mset key v del) = (s', del')"
      unfolding p using ev by simp
    from Cons.IH[OF this rest(1) disj'] show ?thesis
      using Some ev fresh by (simp add: List.map_filter_simps same live_mset_new p)
  qed
qed

lemma ex_assoc_distinct:
  "distinct (map fst xs) \<Longrightarrow>
     (\<exists>p\<in>set xs. fst p = k \<and> P (snd p)) = (case map_of xs k of None \<Rightarrow> False | Some v \<Rightarrow> P v)"
  by (induction xs) (force split: option.splits simp: map_of_eq_None_iff)+

lemma mem_live_distinct:
  "distinct (mkeys m) \<Longrightarrow>
     (\<exists>p\<in>set (live m). fst p = k \<and> P (snd p)) = (case mget k m of None \<Rightarrow> False | Some v \<Rightarrow> P v)"
  unfolding mkeys_def mget_def by (rule ex_assoc_distinct)

lemma ec_clean_events:
  "distinct (mkeys (ec_cacheTtl s)) \<Longrightarrow>
     ec_events (ExpireCache_cleanExpired now s) =
       ec_events s @ map (\<lambda>p. OnExpires (fst p) (snd p)) (ec_swept now s)"
proof -
  assume d: "distinct (mkeys (ec_cacheTtl s))"
  obtain s1 del where l: "ExpireCache_cleanExpired_loop now (live (ec_cacheTtl s)) (s, []) = (s1, del)"
    by (cases "ExpireCache_cleanExpired_loop now (live (ec_cacheTtl s)) (s, [])")
  from ec_loop_del[OF l] d have del: "live del = ec_swept now s"
    by (simp add: mkeys_def ec_swept_def)
  from ec_loop_frame[OF l] have "ec_events s1 = ec_events s" by simp
  then show ?thesis
    unfolding ExpireCache_cleanExpired_def l
    by (simp add: msize_def ec_notify_events del)
qed

lemma ec_clean_ttl:
  "distinct (mkeys (ec_cacheTtl s)) \<Longrightarrow>
     mget k (ec_cacheTtl (ExpireCache_cleanExpired now s)) =
       (if ec_expired now s k then None else mget k (ec_cacheTtl s))"
proof -
  assume d: "distinct (mkeys (ec_cacheTtl s))"
  obtain s1 del where l: "ExpireCache_cleanExpired_loop now (live (ec_cacheTtl s)) (s, []) = (s1, del)"
    by (cases "ExpireCache_cleanExpired_loop now (live (ec_cacheTtl s)) (s, [])")
  show ?thesis
    unfolding ExpireCache_cleanExpired_def l
    by (simp add: ec_loop_ttl[OF l] mem_live_distinct[OF d] ec_expired_def)
qed

lemma ec_clean_cache:
  "distinct (mkeys (ec_cacheTtl s)) \<Longrightarrow>
     mget k (ec_cache (ExpireCache_cleanExpired now s)) =
       (if ec_expired now s k \<and> truthy_opt (mget k (ec_cache s)) then None else mget k (ec_cache s))"
proof -
  assume d: "distinct (mkeys (ec_cacheTtl s))"
  obtain s1 del where l: "ExpireCache_cleanExpired_loop now (live (ec_cacheTtl s)) (s, []) = (s1, del)"
    by (cases "ExpireCache_cleanExpired_loop now (live (ec_cacheTtl s)) (s, [])")
  show ?thesis
    unfolding ExpireCache_cleanExpired_def l
    by (simp add: ec_loop_cache[OF l] mem_live_distinct[OF d] ec_expired_def)
qed

lemma ec_clean_default [simp]:
  "ec_defaultExpireMs (ExpireCache_cleanExpired now s) = ec_defaultExpireMs s"
proof -
  obtain s1 del where l: "ExpireCache_cleanExpired_loop now (live (ec_cacheTtl s)) (s, []) = (s1, del)"
    by (cases "ExpireCache_cleanExpired_loop now (live (ec_cacheTtl s)) (s, [])")
  show ?thesis
    unfolding ExpireCache_cleanExpired_def l using ec_loop_frame[OF l] by simp
qed

lemma ec_clean_wf: "ec_wf s \<Longrightarrow> ec_wf (ExpireCache_cleanExpired now s)"
proof -
  assume w: "ec_wf s"
  obtain s1 del where l: "ExpireCache_cleanExpired_loop now (live (ec_cacheTtl s)) (s, []) = (s1, del)"
    by (cases "ExpireCache_cleanExpired_loop now (live (ec_cacheTtl s)) (s, [])")
  show ?thesis
    unfolding ExpireCache_cleanExpired_def l using ec_loop_distinct[OF l] w
    by (simp add: ec_wf_def)
qed

lemma ec_exec_wf: "ec_wf s \<Longrightarrow> ec_wf (ec_exec op s)"
proof -
  assume w: "ec_wf s"
  obtain now o' where op: "op = (now, o')" by (cases op)
  have emit: "ec_wf (ec_emit e s)" for e using w by (simp add: ec_wf_def ec_emit_def)
  have "ec_wf (ec_exec (now, o') s)"
  proof (cases o')
    case (EcSet key d ex)
    then show ?thesis using w
      by (simp add: ExpireCache_set_def ec_wf_def ec_emit_def Let_def distinct_mkeys_mset)
  next
    case (EcGet key)
    then show ?thesis using ec_clean_wf[OF emit] by (simp add: ExpireCache_get_def Let_def)
  next
    case (EcDelete key)
    then show ?thesis using w
      by (simp add: ExpireCache_delete_def ec_wf_def ec_emit_def Let_def distinct_mkeys_mdelete
               split: option.splits)
  next
    case EcClear
    then show ?thesis
      by (simp add: ExpireCache_clear_def ec_wf_def ec_emit_def Let_def mkeys_mclear)
  qed (use w ec_clean_wf[OF w] in \<open>simp_all add: ExpireCache_has_def ExpireCache_expires_def
        ExpireCache_entries_def ExpireCache_keys_def ExpireCache_values_def
        ExpireCache_setExpireMs_def ec_wf_def Let_def\<close>)
  then show ?thesis by (simp add: op)
qed

lemma ec_run_wf: "ec_wf s \<Longrightarrow> ec_wf (ec_run ops s)"
  unfolding ec_run_def by (induction ops arbitrary: s) (auto simp: ec_exec_wf)

lemma ec_new_wf: "ec_wf (ExpireCache_new d)"
  by (simp add: ec_wf_def ExpireCache_new_def mkeys_def)


section \<open>Timers: at most one per key\<close>

lemma filter_key_le1:
  "distinct (map fst ts) \<Longrightarrow> \<forall>t\<in>set ts. rec (fst (snd t)) = Some (fst t) \<Longrightarrow>
     length (filter (\<lambda>t. fst (snd t) = k) ts) \<le> 1"
proof (induction ts)
  case Nil
  then show ?case by simp
next
  case (Cons t ts)
  show ?case
  proof (cases "fst (snd t) = k")
    case True
    have "filter (\<lambda>t. fst (snd t) = k) ts = []"
    proof (rule ccontr)
      assume "filter (\<lambda>t. fst (snd t) = k) ts \<noteq> []"
      then obtain u where u: "u \<in> set ts" "fst (snd u) = k"
        by (auto simp: filter_empty_conv)
      with Cons.prems True have "fst u = fst t" by auto
      with u Cons.prems(1) show False by (auto simp: image_iff)
    qed
    with True show ?thesis by simp
  next
    case False
    with Cons show ?thesis by simp
  qed
qed

lemma timers_for_le1:
  "timers_ok T \<Longrightarrow> recorded_by rec T \<Longrightarrow> length (timers_for k T) \<le> 1"
  unfolding timers_ok_def recorded_by_def timers_for_def by (rule filter_key_le1) auto

lemma timers_for_unrecorded:
  "recorded_by rec T \<Longrightarrow> rec k = None \<Longrightarrow> timers_for k T = []"
  unfolding recorded_by_def timers_for_def by (auto simp: filter_empty_conv)

lemma timers_ok_clear: "timers_ok T \<Longrightarrow> timers_ok (js_clearTimeout h T)"
  by (auto simp: timers_ok_def js_clearTimeout_def distinct_map_filter)

lemma timers_ok_set: "timers_ok T \<Longrightarrow> timers_ok (snd (js_setTimeout k d T))"
  by (fastforce simp: timers_ok_def js_setTimeout_def)

lemma timers_ok_none: "timers_ok no_timers"
  by (simp add: timers_ok_def no_timers_def)

lemma pending_clear: "pending (js_clearTimeout h T) = filter (\<lambda>t. fst t \<noteq> h) (pending T)"
  by (simp add: js_clearTimeout_def)

lemma next_handle_clear [simp]: "next_handle (js_clearTimeout h T) = next_handle T"
  by (simp add: js_clearTimeout_def)

lemma js_fire_cases:
  "js_fire h T = (r, T') \<Longrightarrow>
     (r = None \<and> T' = T \<and> h \<notin> fst ` set (pending T)) \<or>
     (\<exists>t\<in>set (pending T). fst t = h \<and> r = Some (fst (snd t)) \<and> T' = js_clearTimeout h T)"
proof -
  assume a: "js_fire h T = (r, T')"
  show ?thesis
  proof (cases "filter (\<lambda>t. fst t = h) (pending T)")
    case Nil
    then have "h \<notin> fst ` set (pending T)" by (auto simp: filter_empty_conv)
    with a Nil show ?thesis by (simp add: js_fire_def)
  next
    case (Cons t ts)
    then have "t \<in> set (filter (\<lambda>t. fst t = h) (pending T))" by simp
    then have "t \<in> set (pending T)" "fst t = h" by auto
    with a Cons show ?thesis by (auto simp: js_fire_def)
  qed
qed

text \<open>clearing the recorded handle of a key leaves no timer for the key\<close>

lemma recorded_clear_key:
  assumes ok: "timers_ok T" and r: "recorded_by rec T" and h: "rec k = Some h"
    and r': "\<And>k'. k' \<noteq> k \<Longrightarrow> rec' k' = rec k'"
  shows "recorded_by rec' (js_clearTimeout h T)" and "timers_for k (js_clearTimeout h T) = []"
proof -
  have nok: "fst (snd t) \<noteq> k" if "t \<in> set (pending T)" "fst t \<noteq> h" for t
    using r h that by (auto simp: recorded_by_def)
  show "recorded_by rec' (js_clearTimeout h T)"
    using r nok r' by (auto simp: recorded_by_def pending_clear)
  show "timers_for k (js_clearTimeout h T) = []"
    using nok by (auto simp: timers_for_def pending_clear filter_empty_conv)
qed

lemma recorded_set_key:
  assumes ok: "timers_ok T" and r: "recorded_by rec T" and none: "timers_for k T = []"
    and r': "\<And>k'. k' \<noteq> k \<Longrightarrow> rec' k' = rec k'" and new: "rec' k = Some (next_handle T)"
  shows "recorded_by rec' (snd (js_setTimeout k d T))"
    and "timers_for k (snd (js_setTimeout k d T)) = [(next_handle T, k, d)]"
proof -
  have nok: "fst (snd t) \<noteq> k" if "t \<in> set (pending T)" for t
    using none that by (auto simp: timers_for_def filter_empty_conv)
  show "recorded_by rec' (snd (js_setTimeout k d T))"
    using r nok r' new by (auto simp: recorded_by_def js_setTimeout_def)
  show "timers_for k (snd (js_setTimeout k d T)) = [(next_handle T, k, d)]"
    using none by (simp add: timers_for_def js_setTimeout_def)
qed

lemma recorded_weaken:
  "recorded_by rec T \<Longrightarrow> (\<And>t. t \<in> set (pending T) \<Longrightarrow> rec' (fst (snd t)) = rec (fst (snd t))) \<Longrightarrow>
     recorded_by rec' T"
  by (simp add: recorded_by_def)

lemma etc_inv_cong:
  "etc_timers s' = etc_timers s \<Longrightarrow> etc_cacheTimeout s' = etc_cacheTimeout s \<Longrightarrow> etc_inv s' = etc_inv s"
  by (simp add: etc_inv_def etc_recorded_def[abs_def])

lemma etc_notify_frame [simp]:
  "etc_timers (ExpireTimeoutCache_notifyExpires es s) = etc_timers s"
  "etc_cacheTimeout (ExpireTimeoutCache_notifyExpires es s) = etc_cacheTimeout s"
  "etc_cache (ExpireTimeoutCache_notifyExpires es s) = etc_cache s"
  "etc_defaultExpireMs (ExpireTimeoutCache_notifyExpires es s) = etc_defaultExpireMs s"
  by (induction es s rule: ExpireTimeoutCache_notifyExpires.induct) (auto simp: etc_emit_def)

lemma etc_notify_events:
  "etc_events (ExpireTimeoutCache_notifyExpires es s) =
     etc_events s @ map (\<lambda>p. OnExpires (fst p) (snd p)) es"
  by (induction es s rule: ExpireTimeoutCache_notifyExpires.induct) (auto simp: etc_emit_def)

lemma etc_clearTimeout_frame [simp]:
  "etc_cache (ExpireTimeoutCache_clearTimeout key s) = etc_cache s"
  "etc_events (ExpireTimeoutCache_clearTimeout key s) = etc_events s"
  "etc_defaultExpireMs (ExpireTimeoutCache_clearTimeout key s) = etc_defaultExpireMs s"
  "next_handle (etc_timers (ExpireTimeoutCache_clearTimeout key s)) = next_handle (etc_timers s)"
  by (auto simp: ExpireTimeoutCache_clearTimeout_def split: option.splits timeout_object.splits)

lemma etc_clearTimeout_recorded:
  "etc_recorded (ExpireTimeoutCache_clearTimeout key s) k =
     (if k = key then None else etc_recorded s k)"
  by (auto simp: ExpireTimeoutCache_clearTimeout_def etc_recorded_def mget_mset
           split: option.splits timeout_object.splits)

lemma etc_clearTimeout_inv:
  assumes "etc_inv s"
  shows "etc_inv (ExpireTimeoutCache_clearTimeout key s)"
    and "timers_for key (etc_timers (ExpireTimeoutCache_clearTimeout key s)) = []"
proof -
  let ?s' = "ExpireTimeoutCache_clearTimeout key s"
  from assms have ok: "timers_ok (etc_timers s)" and r: "recorded_by (etc_recorded s) (etc_timers s)"
    by (simp_all add: etc_inv_def)
  have "etc_inv ?s' \<and> timers_for key (etc_timers ?s') = []"
  proof (cases "etc_recorded s key")
    case None
    then have "?s' = s"
      by (auto simp: ExpireTimeoutCache_clearTimeout_def etc_recorded_def
               split: option.splits timeout_object.splits)
    with assms timers_for_unrecorded[OF r None] show ?thesis by simp
  next
    case (Some h)
    then have t: "etc_timers ?s' = js_clearTimeout h (etc_timers s)"
      by (auto simp: ExpireTimeoutCache_clearTimeout_def etc_recorded_def
               split: option.splits timeout_object.splits)
    have "recorded_by (etc_recorded ?s') (js_clearTimeout h (etc_timers s))"
      and "timers_for key (js_clearTimeout h (etc_timers s)) = []"
      using recorded_clear_key[OF ok r Some, of "etc_recorded ?s'"]
      by (simp_all add: etc_clearTimeout_recorded)
    with ok show ?thesis
      by (simp add: etc_inv_def t timers_ok_clear)
  qed
  then show "etc_inv ?s'" and "timers_for key (etc_timers ?s') = []" by simp_all
qed

lemma etc_set_inv:
  assumes "etc_inv s"
  shows "etc_inv (ExpireTimeoutCache_set now key d ex s)"
    and "timers_for key (etc_timers (ExpireTimeoutCache_set now key d ex s)) =
           (case ExpireTimeoutCache_getExpireDate now ex s of
              None \<Rightarrow> []
            | Some e \<Rightarrow> [(next_handle (etc_timers s), key, e - now)])"
proof -
  let ?s1 = "ExpireTimeoutCache_clearTimeout key s"
  let ?s' = "ExpireTimeoutCache_set now key d ex s"
  have ged: "ExpireTimeoutCache_getExpireDate now ex ?s1 = ExpireTimeoutCache_getExpireDate now ex s"
    by (simp add: ExpireTimeoutCache_getExpireDate_def)
  from etc_clearTimeout_inv[OF assms, of key]
  have ok: "timers_ok (etc_timers ?s1)" and r: "recorded_by (etc_recorded ?s1) (etc_timers ?s1)"
    and none: "timers_for key (etc_timers ?s1) = []"
    by (simp_all add: etc_inv_def)
  have "etc_inv ?s' \<and> timers_for key (etc_timers ?s') =
           (case ExpireTimeoutCache_getExpireDate now ex s of
              None \<Rightarrow> []
            | Some e \<Rightarrow> [(next_handle (etc_timers s), key, e - now)])"
  proof (cases "ExpireTimeoutCache_getExpireDate now ex s")
    case None
    then have t: "etc_timers ?s' = etc_timers ?s1"
      and c: "etc_cacheTimeout ?s' = mset key (TimeoutObject None None) (etc_cacheTimeout ?s1)"
      by (simp_all add: ExpireTimeoutCache_set_def ExpireTimeoutCache_handleTimeoutSetup_def ged Let_def)
    have "recorded_by (etc_recorded ?s') (etc_timers ?s1)"
    proof (rule recorded_weaken[OF r])
      fix t assume "t \<in> set (pending (etc_timers ?s1))"
      with none have "fst (snd t) \<noteq> key"
        by (auto simp: timers_for_def filter_empty_conv)
      then show "etc_recorded ?s' (fst (snd t)) = etc_recorded ?s1 (fst (snd t))"
        by (simp add: etc_recorded_def c mget_mset)
    qed
    with ok none None show ?thesis
      by (simp add: etc_inv_def t)
  next
    case (Some e)
    let ?T = "etc_timers ?s1"
    from Some have t: "etc_timers ?s' = snd (js_setTimeout key (e - now) ?T)"
      and c: "etc_cacheTimeout ?s' =
                mset key (TimeoutObject (Some (next_handle ?T)) (Some e)) (etc_cacheTimeout ?s1)"
      by (simp_all add: ExpireTimeoutCache_set_def ExpireTimeoutCache_handleTimeoutSetup_def ged Let_def
            js_setTimeout_def)
    have "recorded_by (etc_recorded ?s') (snd (js_setTimeout key (e - now) ?T))"
      and "timers_for key (snd (js_setTimeout key (e - now) ?T)) = [(next_handle ?T, key, e - now)]"
      using recorded_set_key[OF ok r none, of "etc_recorded ?s'" "e - now"]
      by (simp_all add: etc_recorded_def c mget_mset)
    with ok Some show ?thesis
      by (simp add: etc_inv_def t timers_ok_set)
  qed
  then show "etc_inv ?s'" and "timers_for key (etc_timers ?s') =
           (case ExpireTimeoutCache_getExpireDate now ex s of
              None \<Rightarrow> []
            | Some e \<Rightarrow> [(next_handle (etc_timers s), key, e - now)])"
    by simp_all
qed

lemma etc_delete_inv: "etc_inv s \<Longrightarrow> etc_inv (snd (ExpireTimeoutCache_delete key s))"
proof -
  assume "etc_inv s"
  then have c: "etc_inv (ExpireTimeoutCache_clearTimeout key s)" by (rule etc_clearTimeout_inv)
  have eq: "etc_timers (snd (ExpireTimeoutCache_delete key s)) =
                   etc_timers (ExpireTimeoutCache_clearTimeout key s)"
    "etc_cacheTimeout (snd (ExpireTimeoutCache_delete key s)) =
           etc_cacheTimeout (ExpireTimeoutCache_clearTimeout key s)"
    by (simp_all add: ExpireTimeoutCache_delete_def Let_def etc_emit_def split: option.splits)
  from etc_inv_cong[OF eq] c show ?thesis by simp
qed

lemma etc_clearTimeouts_inv:
  "etc_inv s \<Longrightarrow> etc_inv (ExpireTimeoutCache_clearTimeouts keys s)"
  by (induction keys arbitrary: s) (auto simp: etc_clearTimeout_inv)

lemma etc_clearTimeouts_recorded:
  "etc_recorded (ExpireTimeoutCache_clearTimeouts keys s) k =
     (if k \<in> set keys then None else etc_recorded s k)"
  by (induction keys arbitrary: s) (auto simp: etc_clearTimeout_recorded)

lemma etc_clearTimeouts_frame [simp]:
  "etc_cache (ExpireTimeoutCache_clearTimeouts keys s) = etc_cache s"
  "etc_events (ExpireTimeoutCache_clearTimeouts keys s) = etc_events s"
  by (induction keys arbitrary: s) auto

lemma etc_clear_inv:
  assumes "etc_inv s"
  shows "etc_inv (ExpireTimeoutCache_clear s)" and "pending (etc_timers (ExpireTimeoutCache_clear s)) = []"
proof -
  let ?s1 = "ExpireTimeoutCache_clearTimeouts (mkeys (etc_cacheTimeout s)) s"
  have inv1: "etc_inv ?s1" using assms by (rule etc_clearTimeouts_inv)
  have "etc_recorded s k = None" if "k \<notin> set (mkeys (etc_cacheTimeout s))" for k
  proof -
    from that have "map_of (live (etc_cacheTimeout s)) k = None"
      by (simp add: mkeys_def map_of_eq_None_iff)
    then show ?thesis by (simp add: etc_recorded_def mget_def)
  qed
  then have "etc_recorded ?s1 k = None" for k
    by (simp add: etc_clearTimeouts_recorded)
  with inv1 have p: "pending (etc_timers ?s1) = []"
    by (cases "pending (etc_timers ?s1)") (auto simp: etc_inv_def recorded_by_def)
  have t: "etc_timers (ExpireTimeoutCache_clear s) = etc_timers ?s1"
    by (simp add: ExpireTimeoutCache_clear_def Let_def etc_emit_def)
  from inv1 p show "etc_inv (ExpireTimeoutCache_clear s)"
    by (simp add: etc_inv_def t recorded_by_def)
  from p show "pending (etc_timers (ExpireTimeoutCache_clear s)) = []"
    by (simp add: t)
qed

lemma etc_fire_inv: "etc_inv s \<Longrightarrow> etc_inv (etc_fire h s)"
proof -
  assume inv: "etc_inv s"
  obtain r T where f: "js_fire h (etc_timers s) = (r, T)" by (cases "js_fire h (etc_timers s)")
  show ?thesis
  proof (cases r)
    case None
    with f inv show ?thesis by (simp add: etc_fire_def)
  next
    case (Some k)
    with js_fire_cases[OF f] have T: "T = js_clearTimeout h (etc_timers s)" by auto
    have "etc_inv (s\<lparr>etc_timers := T\<rparr>)"
      using inv unfolding T
      by (auto simp: etc_inv_def timers_ok_clear recorded_by_def pending_clear etc_recorded_def)
    then show ?thesis
      using f Some by (simp add: etc_fire_def ExpireTimeoutCache_handleExpiredCallback_def etc_delete_inv)
  qed
qed

lemma etc_exec_inv: "etc_inv s \<Longrightarrow> etc_inv (etc_exec op s)"
proof -
  assume inv: "etc_inv s"
  obtain now o' where op: "op = (now, o')" by (cases op)
  have "etc_inv (etc_exec (now, o') s)"
  proof (cases o')
    case (EtGet key)
    have "etc_inv (etc_emit (OnGet key) s) = etc_inv s"
      by (rule etc_inv_cong) (simp_all add: etc_emit_def)
    with inv EtGet show ?thesis by (simp add: ExpireTimeoutCache_get_def Let_def)
  next
    case (EtSetExpireMs ms)
    have "etc_inv (s\<lparr>etc_defaultExpireMs := ms\<rparr>) = etc_inv s"
      by (rule etc_inv_cong) simp_all
    with inv EtSetExpireMs show ?thesis by (simp add: ExpireTimeoutCache_setExpireMs_def)
  qed (use inv in \<open>simp_all add: etc_set_inv etc_delete_inv etc_clear_inv etc_fire_inv\<close>)
  then show ?thesis by (simp add: op)
qed

lemma etc_run_inv: "etc_inv s \<Longrightarrow> etc_inv (etc_run ops s)"
  unfolding etc_run_def by (induction ops arbitrary: s) (auto simp: etc_exec_inv)

lemma etc_new_inv: "etc_inv (ExpireTimeoutCache_new d)"
  by (simp add: etc_inv_def ExpireTimeoutCache_new_def timers_ok_def recorded_by_def no_timers_def)

lemma etc_run_append: "etc_run (xs @ ys) s = etc_run ys (etc_run xs s)"
  by (simp add: etc_run_def)

section \<open>The lazy-expiring cache sweeps on read\<close>

lemmas ec_defs =
  ec_run_def ExpireCache_new_def ExpireCache_set_def ExpireCache_get_def ExpireCache_has_def
  ExpireCache_expires_def ExpireCache_delete_def ExpireCache_clear_def ExpireCache_entries_def
  ExpireCache_keys_def ExpireCache_values_def ExpireCache_setExpireMs_def
  ExpireCache_cleanExpired_def ExpireCache_getExpireDate_def ec_emit_def
  mget_def mhas_def mset_def mdelete_def mclear_def msize_def mkeys_def mvalues_def

lemma ec_clean_swept:
  assumes "ec_wf s"
  shows "swept_from now s [] (ExpireCache_cleanExpired now s)"
  using assms
  by (simp add: swept_from_def ec_wf_def ec_clean_cache ec_clean_ttl ec_clean_events)

lemma ec_clean_swept_get:
  assumes "ec_wf s"
  shows "swept_from now s [OnGet key] (ExpireCache_cleanExpired now (ec_emit (OnGet key) s))"
proof -
  let ?s1 = "ec_emit (OnGet key) s"
  have wf1: "ec_wf ?s1" using assms by (simp add: ec_wf_def ec_emit_def)
  have e: "ec_expired now ?s1 = ec_expired now s" "ec_swept now ?s1 = ec_swept now s"
    "ec_cache ?s1 = ec_cache s" "ec_cacheTtl ?s1 = ec_cacheTtl s" "ec_events ?s1 = ec_events s @ [OnGet key]"
    by (simp_all add: ec_expired_def[abs_def] ec_swept_def ec_emit_def)
  from ec_clean_swept[OF wf1, of now] show ?thesis
    by (simp add: swept_from_def e)
qed

text \<open>
  Claim C7, amended. In every state the lazy-expiring cache can reach, each of \<^verbatim>\<open>get\<close>,
  \<^verbatim>\<open>has\<close>, \<^verbatim>\<open>expires\<close>, \<^verbatim>\<open>entries\<close>, \<^verbatim>\<open>keys\<close> and \<^verbatim>\<open>values\<close> sweeps: a tracked
  key whose stored expiry is strictly before the current time is untracked and, when its
  payload is truthy, removed from the cache and notified as expired; every other key,
  one whose expiry equals the current time included, is kept. \<^verbatim>\<open>get\<close>, \<^verbatim>\<open>has\<close>,
  \<^verbatim>\<open>entries\<close>, \<^verbatim>\<open>keys\<close> and \<^verbatim>\<open>values\<close> compute their result from the swept cache.
\<close>

theorem sweep_before_read:
  "(let s = ec_run ops (ExpireCache_new d0) in
      swept_from now s [OnGet key] (snd (ExpireCache_get now key s)) \<and>
      fst (ExpireCache_get now key s) = mget key (ec_cache (snd (ExpireCache_get now key s))) \<and>
      swept_from now s [] (snd (ExpireCache_has now key s)) \<and>
      fst (ExpireCache_has now key s) = mhas key (ec_cache (snd (ExpireCache_has now key s))) \<and>
      swept_from now s [] (snd (ExpireCache_expires now key s)) \<and>
      swept_from now s [] (snd (ExpireCache_entries now s)) \<and>
      fst (ExpireCache_entries now s) = live (ec_cache (snd (ExpireCache_entries now s))) \<and>
      swept_from now s [] (snd (ExpireCache_keys now s)) \<and>
      fst (ExpireCache_keys now s) = mkeys (ec_cache (snd (ExpireCache_keys now s))) \<and>
      swept_from now s [] (snd (ExpireCache_values now s)) \<and>
      fst (ExpireCache_values now s) = mvalues (ec_cache (snd (ExpireCache_values now s))) \<and>
      (\<forall>k. mget k (ec_cacheTtl s) = Some (Some now) \<longrightarrow> \<not> ec_expired now s k))"
proof -
  have wf: "ec_wf (ec_run ops (ExpireCache_new d0))"
    by (rule ec_run_wf[OF ec_new_wf])
  show ?thesis
    using ec_clean_swept[OF wf, of now] ec_clean_swept_get[OF wf, of now key]
    by (simp add: Let_def ExpireCache_get_def ExpireCache_has_def ExpireCache_expires_def
          ExpireCache_entries_def ExpireCache_keys_def ExpireCache_values_def
          ec_expired_def ttl_past_def)
qed

text \<open>
  The claim as stated treats an expiry equal to the current time as expired. The code
  compares with \<^verbatim>\<open>expire < now\<close>: an entry set to expire at 1000 is still served at 1000.
\<close>

theorem expiry_equal_to_now_is_kept_counterexample:
  "fst (ExpireCache_get 1000 ''k''
          (ExpireCache_set 0 ''k'' (JStr ''v'') (Some 1000) (ExpireCache_new None)))
     = Some (JStr ''v'')"
  by (simp add: ec_defs Let_def)

text \<open>
  Two entries expiring at 10 and 20, read at 20: the first is swept and notified, the
  second is kept.
\<close>

theorem sweep_before_read_witness:
  "(let s = ec_run [(0, EcSet ''a'' (JStr ''x'') (Some 10)), (0, EcSet ''b'' (JStr ''y'') (Some 20))]
             (ExpireCache_new None)
    in ec_expired 20 s ''a'' \<and> truthy_opt (mget ''a'' (ec_cache s)) \<and>
       mget ''a'' (ec_cache (snd (ExpireCache_has 20 ''b'' s))) = None \<and>
       mget ''a'' (ec_cacheTtl (snd (ExpireCache_has 20 ''b'' s))) = None \<and>
       \<not> ec_expired 20 s ''b'' \<and>
       mget ''b'' (ec_cache (snd (ExpireCache_has 20 ''b'' s))) = Some (JStr ''y'') \<and>
       fst (ExpireCache_has 20 ''b'' s) \<and>
       ec_events (snd (ExpireCache_get 20 ''a'' s)) =
         ec_events s @ [OnGet ''a'', OnExpires ''a'' (JStr ''x'')] \<and>
       fst (ExpireCache_get 20 ''a'' s) = None)"
proof -
  let ?ops = "[(0::int, EcSet ''a'' (JStr ''x'') (Some 10)), (0, EcSet ''b'' (JStr ''y'') (Some 20))]"
  let ?s = "ec_run ?ops (ExpireCache_new None)"
  have a: "ec_expired 20 ?s ''a''" "truthy_opt (mget ''a'' (ec_cache ?s))" "\<not> ec_expired 20 ?s ''b''"
    "mget ''b'' (ec_cache ?s) = Some (JStr ''y'')" "mget ''b'' (ec_cacheTtl ?s) = Some (Some 20)"
    "ec_swept 20 ?s = [(''a'', JStr ''x'')]"
    by (simp_all add: ec_defs ec_expired_def ttl_past_def ec_swept_def sweep_pick_def
          List.map_filter_simps Let_def)
  from sweep_before_read[where now = 20 and ops = ?ops and ?d0.0 = None and key = "''b''"] a
  have 1: "mget ''a'' (ec_cache (snd (ExpireCache_has 20 ''b'' ?s))) = None"
    "mget ''a'' (ec_cacheTtl (snd (ExpireCache_has 20 ''b'' ?s))) = None"
    "mget ''b'' (ec_cache (snd (ExpireCache_has 20 ''b'' ?s))) = Some (JStr ''y'')"
    "fst (ExpireCache_has 20 ''b'' ?s)"
    unfolding Let_def swept_from_def by (auto simp: mhas_mget)
  from sweep_before_read[where now = 20 and ops = ?ops and ?d0.0 = None and key = "''a''"] a
  have 2: "ec_events (snd (ExpireCache_get 20 ''a'' ?s)) =
         ec_events ?s @ [OnGet ''a'', OnExpires ''a'' (JStr ''x'')]"
    "fst (ExpireCache_get 20 ''a'' ?s) = None"
    unfolding Let_def swept_from_def by auto
  from a 1 2 show ?thesis unfolding Let_def by simp
qed

section \<open>Deleting a key\<close>

lemmas etc_defs =
  etc_run_def ExpireTimeoutCache_new_def ExpireTimeoutCache_set_def ExpireTimeoutCache_get_def
  ExpireTimeoutCache_delete_def ExpireTimeoutCache_clear_def ExpireTimeoutCache_setExpireMs_def
  ExpireTimeoutCache_clearTimeout_def ExpireTimeoutCache_getExpireDate_def
  ExpireTimeoutCache_handleTimeoutSetup_def ExpireTimeoutCache_handleExpiredCallback_def
  etc_fire_def etc_emit_def js_setTimeout_def js_clearTimeout_def js_fire_def no_timers_def
  timers_for_def mget_def mhas_def mset_def mdelete_def mclear_def msize_def mkeys_def mvalues_def

text \<open>
  Claim C9, amended. In both the lazy-expiring and the timer-expiring cache,
  \<^verbatim>\<open>delete(key)\<close> removes the entry of the key and nothing else, and returns true
  exactly when the key was stored. When no entry was stored it emits nothing; when an
  entry with a truthy payload was stored it emits both an \<^verbatim>\<open>expires\<close> and a
  \<^verbatim>\<open>delete\<close> notification for it (the lazy cache \<^verbatim>\<open>expires\<close> first, the timer cache
  \<^verbatim>\<open>delete\<close> first).
\<close>

theorem delete_notifies_deleted_and_expired:
  "(case ExpireCache_delete key s of
      (r, s') \<Rightarrow>
        r = mhas key (ec_cache s) \<and>
        (\<forall>k. mget k (ec_cache s') = (if k = key then None else mget k (ec_cache s))) \<and>
        (case mget key (ec_cache s) of
           None \<Rightarrow> ec_events s' = ec_events s
         | Some v \<Rightarrow> truthy v \<longrightarrow> ec_events s' = ec_events s @ [OnExpires key v, OnDelete key])) \<and>
   (case ExpireTimeoutCache_delete key t of
      (r, t') \<Rightarrow>
        r = mhas key (etc_cache t) \<and>
        (\<forall>k. mget k (etc_cache t') = (if k = key then None else mget k (etc_cache t))) \<and>
        (case mget key (etc_cache t) of
           None \<Rightarrow> etc_events t' = etc_events t
         | Some v \<Rightarrow> truthy v \<longrightarrow> etc_events t' = etc_events t @ [OnDelete key, OnExpires key v]))"
proof -
  have "case ExpireCache_delete key s of
      (r, s') \<Rightarrow>
        r = mhas key (ec_cache s) \<and>
        (\<forall>k. mget k (ec_cache s') = (if k = key then None else mget k (ec_cache s))) \<and>
        (case mget key (ec_cache s) of
           None \<Rightarrow> ec_events s' = ec_events s
         | Some v \<Rightarrow> truthy v \<longrightarrow> ec_events s' = ec_events s @ [OnExpires key v, OnDelete key])"
    by (simp add: ExpireCache_delete_def Let_def mget_mdelete ec_emit_def split: option.splits)
  moreover have "case ExpireTimeoutCache_delete key t of
      (r, t') \<Rightarrow>
        r = mhas key (etc_cache t) \<and>
        (\<forall>k. mget k (etc_cache t') = (if k = key then None else mget k (etc_cache t))) \<and>
        (case mget key (etc_cache t) of
           None \<Rightarrow> etc_events t' = etc_events t
         | Some v \<Rightarrow> truthy v \<longrightarrow> etc_events t' = etc_events t @ [OnDelete key, OnExpires key v])"
    by (simp add: ExpireTimeoutCache_delete_def Let_def mget_mdelete etc_emit_def split: option.splits)
  ultimately show ?thesis by simp
qed

text \<open>
  The claim as stated says an explicit delete is notified as deleted and not as expired.
  Both caches call \<^verbatim>\<open>notifyExpires\<close> in \<^verbatim>\<open>delete\<close>: the observers of a deleted key see
  an \<^verbatim>\<open>expires\<close> event as well.
\<close>

theorem delete_is_notified_as_expired_counterexample:
  "ec_events (snd (ExpireCache_delete ''k''
       (ExpireCache_set 0 ''k'' (JStr ''v'') None (ExpireCache_new None)))) =
     [OnSet ''k'' (JStr ''v'') None, OnExpires ''k'' (JStr ''v''), OnDelete ''k''] \<and>
   etc_events (snd (ExpireTimeoutCache_delete ''k''
       (ExpireTimeoutCache_set 0 ''k'' (JStr ''v'') None (ExpireTimeoutCache_new None)))) =
     [OnDelete ''k'', OnExpires ''k'' (JStr ''v'')]"
  by (simp add: ec_defs etc_defs Let_def)

text \<open>A stored string payload, deleted in each of the two caches.\<close>

theorem delete_notifies_witness:
  "(let s = ExpireCache_set 0 ''k'' (JStr ''v'') None (ExpireCache_new None);
        t = ExpireTimeoutCache_set 0 ''k'' (JStr ''v'') None (ExpireTimeoutCache_new None)
    in mget ''k'' (ec_cache s) = Some (JStr ''v'') \<and> truthy (JStr ''v'') \<and>
       fst (ExpireCache_delete ''k'' s) \<and>
       ec_events (snd (ExpireCache_delete ''k'' s)) =
         ec_events s @ [OnExpires ''k'' (JStr ''v''), OnDelete ''k''] \<and>
       mget ''k'' (etc_cache t) = Some (JStr ''v'') \<and>
       fst (ExpireTimeoutCache_delete ''k'' t) \<and>
       etc_events (snd (ExpireTimeoutCache_delete ''k'' t)) =
         etc_events t @ [OnDelete ''k'', OnExpires ''k'' (JStr ''v'')])"
proof -
  let ?s = "ExpireCache_set 0 ''k'' (JStr ''v'') None (ExpireCache_new None)"
  let ?t = "ExpireTimeoutCache_set 0 ''k'' (JStr ''v'') None (ExpireTimeoutCache_new None)"
  have a: "mget ''k'' (ec_cache ?s) = Some (JStr ''v'')" "mget ''k'' (etc_cache ?t) = Some (JStr ''v'')"
    by (simp_all add: ec_defs etc_defs Let_def)
  from delete_notifies_deleted_and_expired[of "''k''" ?s ?t] a show ?thesis
    by (auto simp: Let_def mhas_mget split: prod.splits)
qed

section \<open>A default expiry offset of zero\<close>





lemma timers_for_set_other:
  "k \<noteq> key \<Longrightarrow> timers_for key (snd (js_setTimeout k d T)) = timers_for key T"
  by (simp add: timers_for_def js_setTimeout_def)







section \<open>The tiered cache engine: timers and status\<close>

lemma timers_le_refl: "timers_le T T"
  by (simp add: timers_le_def)

lemma timers_le_trans: "timers_le T T1 \<Longrightarrow> timers_le T1 T2 \<Longrightarrow> timers_le T T2"
  unfolding timers_le_def by (meson order_trans)

lemma timers_le_clear: "timers_le T (js_clearTimeout h T)"
  by (simp add: timers_le_def js_clearTimeout_def)

lemma timers_le_set: "timers_le T (snd (js_setTimeout k d T))"
  by (auto simp: timers_le_def js_setTimeout_def)

lemma timers_le_spent:
  "timers_le T T' \<Longrightarrow> h < next_handle T \<Longrightarrow> h \<notin> fst ` set (pending T) \<Longrightarrow>
     h < next_handle T' \<and> h \<notin> fst ` set (pending T')"
  unfolding timers_le_def by force

lemma tc_step_ok_refl: "tc_step_ok s s"
  by (simp add: tc_step_ok_def timers_le_refl)

lemma tc_step_ok_trans: "tc_step_ok s s1 \<Longrightarrow> tc_step_ok s1 s2 \<Longrightarrow> tc_step_ok s s2"
  unfolding tc_step_ok_def using timers_le_trans by auto

lemma tc_step_ok_same:
  "tc_timers s' = tc_timers s \<Longrightarrow> tc_cacheTimeout s' = tc_cacheTimeout s \<Longrightarrow>
   tc_errors s' = tc_errors s \<Longrightarrow> tc_step_ok s s'"
  by (simp add: tc_step_ok_def tc_inv_def timers_le_refl)

lemma tc_clear_old:
  assumes "tc_inv s"
    and s1_def: "s1 = (case mget key (tc_cacheTimeout s) of
                    None \<Rightarrow> s
                  | Some oldTimeout \<Rightarrow> s\<lparr>tc_timers := js_clearTimeout oldTimeout (tc_timers s)\<rparr>)"
  shows "timers_ok (tc_timers s1)"
    and "recorded_by (\<lambda>k. mget k (tc_cacheTimeout s)) (tc_timers s1)"
    and "timers_for key (tc_timers s1) = []"
proof -
  from assms(1) have ok: "timers_ok (tc_timers s)"
    and r: "recorded_by (\<lambda>k. mget k (tc_cacheTimeout s)) (tc_timers s)"
    by (simp_all add: tc_inv_def)
  have "timers_ok (tc_timers s1) \<and> recorded_by (\<lambda>k. mget k (tc_cacheTimeout s)) (tc_timers s1) \<and>
        timers_for key (tc_timers s1) = []"
  proof (cases "mget key (tc_cacheTimeout s)")
    case None
    with ok r timers_for_unrecorded[OF r None] show ?thesis by (simp add: s1_def)
  next
    case (Some h)
    from recorded_clear_key[OF ok r Some, of "\<lambda>k. mget k (tc_cacheTimeout s)"] ok Some
    show ?thesis by (simp add: s1_def timers_ok_clear)
  qed
  then show "timers_ok (tc_timers s1)"
    and "recorded_by (\<lambda>k. mget k (tc_cacheTimeout s)) (tc_timers s1)"
    and "timers_for key (tc_timers s1) = []" by simp_all
qed

lemma tc_clear_old_frame:
  "tc_cacheTimeout (case mget key (tc_cacheTimeout s) of
                    None \<Rightarrow> s
                  | Some oldTimeout \<Rightarrow> s\<lparr>tc_timers := js_clearTimeout oldTimeout (tc_timers s)\<rparr>) = tc_cacheTimeout s"
  "next_handle (tc_timers (case mget key (tc_cacheTimeout s) of
                    None \<Rightarrow> s
                  | Some oldTimeout \<Rightarrow> s\<lparr>tc_timers := js_clearTimeout oldTimeout (tc_timers s)\<rparr>)) = next_handle (tc_timers s)"
  by (simp_all split: option.splits)

lemma tc_setTimeout_frame [simp]:
  "tc_cache (TieredCache_setTimeout key timeout s) = tc_cache s"
  "tc_statusData (TieredCache_setTimeout key timeout s) = tc_statusData s"
  "tc_events (TieredCache_setTimeout key timeout s) = tc_events s"
  "tc_errors (TieredCache_setTimeout key timeout s) = tc_errors s"
  by (simp_all add: TieredCache_setTimeout_def Let_def js_setTimeout_def split: option.splits)

lemma tc_clearTimeoutKey_frame [simp]:
  "tc_cache (TieredCache_clearTimeoutKey key s) = tc_cache s"
  "tc_statusData (TieredCache_clearTimeoutKey key s) = tc_statusData s"
  "tc_events (TieredCache_clearTimeoutKey key s) = tc_events s"
  "tc_errors (TieredCache_clearTimeoutKey key s) = tc_errors s"
  by (simp_all add: TieredCache_clearTimeoutKey_def Let_def split: option.splits)

lemma tc_setTimeout_inv:
  assumes "tc_inv s"
  shows "tc_inv (TieredCache_setTimeout key timeout s)"
    and "timers_for key (tc_timers (TieredCache_setTimeout key timeout s)) =
           (case timeout of None \<Rightarrow> [] | Some t \<Rightarrow> [(next_handle (tc_timers s), key, t)])"
proof -
  define s1 where "s1 = (case mget key (tc_cacheTimeout s) of
                    None \<Rightarrow> s
                  | Some oldTimeout \<Rightarrow> s\<lparr>tc_timers := js_clearTimeout oldTimeout (tc_timers s)\<rparr>)"
  have ct: "tc_cacheTimeout s1 = tc_cacheTimeout s" and nh: "next_handle (tc_timers s1) = next_handle (tc_timers s)"
    unfolding s1_def by (rule tc_clear_old_frame)+
  from tc_clear_old[OF assms s1_def]
  have ok: "timers_ok (tc_timers s1)" and r: "recorded_by (\<lambda>k. mget k (tc_cacheTimeout s)) (tc_timers s1)"
    and none: "timers_for key (tc_timers s1) = []"
    by simp_all
  have "tc_inv (TieredCache_setTimeout key timeout s) \<and>
        timers_for key (tc_timers (TieredCache_setTimeout key timeout s)) =
           (case timeout of None \<Rightarrow> [] | Some t \<Rightarrow> [(next_handle (tc_timers s), key, t)])"
  proof (cases timeout)
    case None
    then have "TieredCache_setTimeout key timeout s = s1"
      by (simp add: TieredCache_setTimeout_def s1_def)
    with ok r none None ct show ?thesis by (simp add: tc_inv_def)
  next
    case (Some t)
    let ?T = "tc_timers s1"
    have e: "tc_timers (TieredCache_setTimeout key (Some t) s) = snd (js_setTimeout key t ?T)"
      "tc_cacheTimeout (TieredCache_setTimeout key (Some t) s) = mset key (next_handle ?T) (tc_cacheTimeout s)"
      by (simp_all add: TieredCache_setTimeout_def s1_def[symmetric] ct js_setTimeout_def Let_def)
    from recorded_set_key[OF ok r none, of "\<lambda>k. mget k (mset key (next_handle ?T) (tc_cacheTimeout s))" t]
    have "recorded_by (\<lambda>k. mget k (mset key (next_handle ?T) (tc_cacheTimeout s))) (snd (js_setTimeout key t ?T))"
      "timers_for key (snd (js_setTimeout key t ?T)) = [(next_handle ?T, key, t)]"
      by (simp_all add: mget_mset)
    with ok Some show ?thesis
      by (simp add: tc_inv_def e timers_ok_set nh)
  qed
  then show "tc_inv (TieredCache_setTimeout key timeout s)"
    and "timers_for key (tc_timers (TieredCache_setTimeout key timeout s)) =
           (case timeout of None \<Rightarrow> [] | Some t \<Rightarrow> [(next_handle (tc_timers s), key, t)])"
    by simp_all
qed

lemma tc_clearTimeoutKey_inv:
  assumes "tc_inv s"
  shows "tc_inv (TieredCache_clearTimeoutKey key s)"
    and "timers_for key (tc_timers (TieredCache_clearTimeoutKey key s)) = []"
proof -
  define s1 where "s1 = (case mget key (tc_cacheTimeout s) of
                    None \<Rightarrow> s
                  | Some oldTimeout \<Rightarrow> s\<lparr>tc_timers := js_clearTimeout oldTimeout (tc_timers s)\<rparr>)"
  have ct: "tc_cacheTimeout s1 = tc_cacheTimeout s"
    unfolding s1_def by (rule tc_clear_old_frame)
  from tc_clear_old[OF assms s1_def]
  have ok: "timers_ok (tc_timers s1)" and r: "recorded_by (\<lambda>k. mget k (tc_cacheTimeout s)) (tc_timers s1)"
    and none: "timers_for key (tc_timers s1) = []"
    by simp_all
  have e: "tc_timers (TieredCache_clearTimeoutKey key s) = tc_timers s1"
    "tc_cacheTimeout (TieredCache_clearTimeoutKey key s) = mdelete key (tc_cacheTimeout s)"
    by (simp_all add: TieredCache_clearTimeoutKey_def s1_def[symmetric] ct Let_def)
  have "recorded_by (\<lambda>k. mget k (mdelete key (tc_cacheTimeout s))) (tc_timers s1)"
  proof (rule recorded_weaken[OF r])
    fix t assume "t \<in> set (pending (tc_timers s1))"
    with none have "fst (snd t) \<noteq> key" by (auto simp: timers_for_def filter_empty_conv)
    then show "mget (fst (snd t)) (mdelete key (tc_cacheTimeout s)) = mget (fst (snd t)) (tc_cacheTimeout s)"
      by (simp add: mget_mdelete)
  qed
  with ok show "tc_inv (TieredCache_clearTimeoutKey key s)" by (simp add: tc_inv_def e)
  from none show "timers_for key (tc_timers (TieredCache_clearTimeoutKey key s)) = []" by (simp add: e)
qed

lemma pending_clearTimeouts:
  "pending (clearTimeouts hs T) = filter (\<lambda>t. fst t \<notin> set hs) (pending T)"
  by (induction hs arbitrary: T) (auto simp: pending_clear intro: filter_cong)

lemma next_handle_clearTimeouts [simp]: "next_handle (clearTimeouts hs T) = next_handle T"
  by (induction hs arbitrary: T) auto

lemma tc_clearAllTimeouts_inv:
  assumes "tc_inv s"
  shows "tc_inv (TieredCache_clearAllTimeouts s)" and "pending (tc_timers (TieredCache_clearAllTimeouts s)) = []"
proof -
  have "fst t \<in> set (mvalues (tc_cacheTimeout s))" if "t \<in> set (pending (tc_timers s))" for t
  proof -
    from assms that have "mget (fst (snd t)) (tc_cacheTimeout s) = Some (fst t)"
      by (simp add: tc_inv_def recorded_by_def)
    then have "(fst (snd t), fst t) \<in> set (live (tc_cacheTimeout s))"
      by (simp add: mget_def map_of_SomeD)
    then show ?thesis by (force simp: mvalues_def)
  qed
  then have p: "pending (tc_timers (TieredCache_clearAllTimeouts s)) = []"
    by (auto simp: TieredCache_clearAllTimeouts_def pending_clearTimeouts filter_empty_conv)
  then show "pending (tc_timers (TieredCache_clearAllTimeouts s)) = []" .
  from p show "tc_inv (TieredCache_clearAllTimeouts s)"
    by (simp add: tc_inv_def timers_ok_def recorded_by_def)
qed

lemma tc_clearAllTimeouts_frame [simp]:
  "tc_cache (TieredCache_clearAllTimeouts s) = tc_cache s"
  "tc_statusData (TieredCache_clearAllTimeouts s) = tc_statusData s"
  "tc_events (TieredCache_clearAllTimeouts s) = tc_events s"
  "tc_errors (TieredCache_clearAllTimeouts s) = tc_errors s"
  by (simp_all add: TieredCache_clearAllTimeouts_def)

lemma tc_emit_frame [simp]:
  "tc_cache (tc_emit e s) = tc_cache s"
  "tc_statusData (tc_emit e s) = tc_statusData s"
  "tc_errors (tc_emit e s) = tc_errors s"
  "tc_timers (tc_emit e s) = tc_timers s"
  "tc_cacheTimeout (tc_emit e s) = tc_cacheTimeout s"
  "tc_events (tc_emit e s) = tc_events s @ [e]"
  by (simp_all add: tc_emit_def)

lemma tc_emit_update_frame [simp]:
  "tc_cache (tc_emit_update s) = tc_cache s"
  "tc_errors (tc_emit_update s) = tc_errors s"
  "tc_timers (tc_emit_update s) = tc_timers s"
  "tc_cacheTimeout (tc_emit_update s) = tc_cacheTimeout s"
  by (simp_all add: tc_emit_update_def TieredCache_buildStatus_def Let_def)

lemma tc_clear_old_le:
  "timers_le (tc_timers s)
     (tc_timers (case mget key (tc_cacheTimeout s) of
                    None \<Rightarrow> s
                  | Some oldTimeout \<Rightarrow> s\<lparr>tc_timers := js_clearTimeout oldTimeout (tc_timers s)\<rparr>))"
  by (simp add: timers_le_refl timers_le_clear split: option.splits)

lemma tc_setTimeout_le: "timers_le (tc_timers s) (tc_timers (TieredCache_setTimeout key timeout s))"
proof -
  define s1 where "s1 = (case mget key (tc_cacheTimeout s) of
                    None \<Rightarrow> s
                  | Some oldTimeout \<Rightarrow> s\<lparr>tc_timers := js_clearTimeout oldTimeout (tc_timers s)\<rparr>)"
  have a: "timers_le (tc_timers s) (tc_timers s1)" unfolding s1_def by (rule tc_clear_old_le)
  have "tc_timers (TieredCache_setTimeout key timeout s) =
          (case timeout of None \<Rightarrow> tc_timers s1 | Some t \<Rightarrow> snd (js_setTimeout key t (tc_timers s1)))"
    by (simp add: TieredCache_setTimeout_def s1_def[symmetric] Let_def js_setTimeout_def split: option.splits)
  with a timers_le_trans[OF a timers_le_set] show ?thesis
    by (simp split: option.splits)
qed

lemma tc_clearTimeoutKey_le: "timers_le (tc_timers s) (tc_timers (TieredCache_clearTimeoutKey key s))"
  using tc_clear_old_le[of s key]
  by (simp add: TieredCache_clearTimeoutKey_def Let_def)

lemma tc_step_setTimeout: "tc_step_ok s (TieredCache_setTimeout key timeout s)"
  by (simp add: tc_step_ok_def tc_setTimeout_inv tc_setTimeout_le)

lemma tc_step_clearTimeoutKey: "tc_step_ok s (TieredCache_clearTimeoutKey key s)"
  by (simp add: tc_step_ok_def tc_clearTimeoutKey_inv tc_clearTimeoutKey_le)

lemma tc_step_cache: "tc_step_ok s (s\<lparr>tc_cache := c\<rparr>)"
  by (rule tc_step_ok_same) simp_all

lemma tc_step_emit: "tc_step_ok s (tc_emit e s)"
  by (rule tc_step_ok_same) simp_all

lemma tc_step_emit_update: "tc_step_ok s (tc_emit_update s)"
  by (rule tc_step_ok_same) simp_all

lemma tc_step_handleSetValue: "tc_step_ok s (snd (TieredCache_handleSetValue h key tr d timeout s))"
proof -
  let ?s1 = "s\<lparr>tc_cache := mset key (TierEntry tr d) (tc_cache s)\<rparr>"
  have a: "tc_step_ok s ?s1" by (rule tc_step_cache)
  have b: "tc_step_ok ?s1 (TieredCache_setTimeout key t ?s1)" for t by (rule tc_step_setTimeout)
  show ?thesis
    using a tc_step_ok_trans[OF a b]
    by (auto simp: TieredCache_handleSetValue_def Let_def split: option.splits sum.splits)
qed

lemma tc_step_handleDeleteValue: "tc_step_ok s (snd (TieredCache_handleDeleteValue key s))"
  using tc_step_ok_trans[OF tc_step_clearTimeoutKey tc_step_cache]
  by (simp add: TieredCache_handleDeleteValue_def Let_def)

lemma tc_step_get: "tc_step_ok s (snd (TieredCache_get h key tr timeout s))"
  using tc_step_setTimeout[of s key] tc_step_ok_refl[of s]
  by (auto simp: TieredCache_get_def Let_def split: option.splits sum.splits)

lemma tc_step_set: "tc_step_ok s (snd (TieredCache_set h key tr d timeout s))"
proof -
  obtain r s1 where hs: "TieredCache_handleSetValue h key tr d timeout s = (r, s1)"
    by (cases "TieredCache_handleSetValue h key tr d timeout s")
  with tc_step_handleSetValue[of s h key tr d timeout] have a: "tc_step_ok s s1" by simp
  from tc_step_ok_trans[OF tc_step_emit tc_step_emit_update]
  have b: "tc_step_ok s1 (tc_emit_update (tc_emit e s1))" for e .
  show ?thesis
    using a tc_step_ok_trans[OF a b] by (simp add: TieredCache_set_def hs split: option.splits)
qed

lemma tc_step_setEntries_loop: "tc_step_ok s (snd (TieredCache_setEntries_loop h tr entries timeout s))"
proof (induction entries arbitrary: s)
  case Nil
  show ?case by (simp add: tc_step_ok_refl)
next
  case (Cons p entries)
  obtain key d where p: "p = (key, d)" by (cases p)
  obtain r s1 where hs: "TieredCache_handleSetValue h key tr d timeout s = (r, s1)"
    by (cases "TieredCache_handleSetValue h key tr d timeout s")
  with tc_step_handleSetValue[of s h key tr d timeout] have a: "tc_step_ok s s1" by simp
  show ?case
    using a tc_step_ok_trans[OF a Cons.IH[of s1]]
    by (simp add: p hs split: option.splits)
qed

lemma tc_step_setEntries: "tc_step_ok s (snd (TieredCache_setEntries h tr entries timeout s))"
proof -
  obtain r s1 where l: "TieredCache_setEntries_loop h tr entries timeout s = (r, s1)"
    by (cases "TieredCache_setEntries_loop h tr entries timeout s")
  with tc_step_setEntries_loop[of s h tr entries timeout] have a: "tc_step_ok s s1" by simp
  from tc_step_ok_trans[OF tc_step_emit tc_step_emit_update]
  have b: "tc_step_ok s1 (tc_emit_update (tc_emit e s1))" for e .
  show ?thesis
    using a tc_step_ok_trans[OF a b] by (simp add: TieredCache_setEntries_def l split: option.splits)
qed

lemma tc_step_delete: "tc_step_ok s (snd (TieredCache_delete key s))"
proof -
  obtain r s1 where hd: "TieredCache_handleDeleteValue key s = (r, s1)"
    by (cases "TieredCache_handleDeleteValue key s")
  with tc_step_handleDeleteValue[of s key] have a: "tc_step_ok s s1" by simp
  from tc_step_ok_trans[OF tc_step_emit tc_step_emit_update]
  have b: "tc_step_ok s1 (tc_emit_update (tc_emit e s1))" for e .
  show ?thesis
    using a tc_step_ok_trans[OF a b] by (simp add: TieredCache_delete_def hd)
qed

lemma tc_step_deleteKeys_loop: "tc_step_ok s (snd (TieredCache_deleteKeys_loop keys (acc, s)))"
proof (induction keys arbitrary: acc s)
  case Nil
  show ?case by (simp add: tc_step_ok_refl)
next
  case (Cons key keys)
  let ?s1 = "TieredCache_clearTimeoutKey key s"
  have a: "tc_step_ok s ?s1" by (rule tc_step_clearTimeoutKey)
  have b: "tc_step_ok s (?s1\<lparr>tc_cache := c\<rparr>)" for c
    by (rule tc_step_ok_trans[OF a tc_step_cache])
  show ?case
    using tc_step_ok_trans[OF a Cons.IH[where s = ?s1]] tc_step_ok_trans[OF b Cons.IH]
    by (simp add: Let_def)
qed

lemma tc_step_deleteKeys: "tc_step_ok s (snd (TieredCache_deleteKeys keys s))"
proof -
  obtain dk s1 where l: "TieredCache_deleteKeys_loop keys ([], s) = (dk, s1)"
    by (cases "TieredCache_deleteKeys_loop keys ([], s)")
  with tc_step_deleteKeys_loop[of s keys "[]"] have a: "tc_step_ok s s1" by simp
  from tc_step_ok_trans[OF tc_step_emit tc_step_emit_update]
  have b: "tc_step_ok s1 (tc_emit_update (tc_emit e s1))" for e .
  show ?thesis
    using tc_step_ok_trans[OF a b] by (simp add: TieredCache_deleteKeys_def l)
qed

lemma tc_step_clear: "tc_step_ok s (TieredCache_clear s)"
proof -
  have "timers_le (tc_timers s) (tc_timers (TieredCache_clearAllTimeouts s))"
    by (simp add: timers_le_def TieredCache_clearAllTimeouts_def pending_clearTimeouts)
  then have a: "tc_step_ok s (TieredCache_clearAllTimeouts s)"
    by (simp add: tc_step_ok_def tc_clearAllTimeouts_inv)
  have b: "tc_step_ok s1 (tc_emit_update (tc_emit e2 (tc_emit e1 (s1\<lparr>tc_cache := c\<rparr>))))" for s1 :: "('a, 'b) tiered_cache" and e1 e2 c
    by (rule tc_step_ok_same) simp_all
  show ?thesis
    using tc_step_ok_trans[OF a b] by (simp add: TieredCache_clear_def Let_def)
qed

lemma tc_step_hook_actions: "tc_step_ok s (snd (run_hook_actions h acts s))"
proof (induction acts arbitrary: s)
  case Nil
  show ?case by (simp add: tc_step_ok_refl)
next
  case (Cons a acts)
  show ?case
  proof (cases a)
    case (HandleSetValue key tr d timeout)
    obtain r s1 where hs: "TieredCache_handleSetValue h key tr d timeout s = (r, s1)"
      by (cases "TieredCache_handleSetValue h key tr d timeout s")
    with tc_step_handleSetValue[of s h key tr d timeout] have a: "tc_step_ok s s1" by simp
    show ?thesis
      using a tc_step_ok_trans[OF a Cons.IH[of s1]]
      by (simp add: HandleSetValue hs split: option.splits)
  next
    case (HandleDeleteValue key)
    show ?thesis
      using tc_step_ok_trans[OF tc_step_handleDeleteValue Cons.IH]
      by (simp add: HandleDeleteValue)
  next
    case (CacheSet key tr d)
    show ?thesis
      using tc_step_ok_trans[OF tc_step_cache Cons.IH]
      by (simp add: CacheSet)
  next
    case (CacheDelete key)
    show ?thesis
      using tc_step_ok_trans[OF tc_step_cache Cons.IH]
      by (simp add: CacheDelete)
  qed
qed

lemma tc_step_runTimeout_try: "tc_step_ok s (snd (TieredCache_runTimeout_try h key s))"
proof -
  obtain acts res where hk: "handleTierTimeout h key (tc_cache s) = (acts, res)"
    by (cases "handleTierTimeout h key (tc_cache s)")
  obtain r s1 where ra: "run_hook_actions h acts s = (r, s1)"
    by (cases "run_hook_actions h acts s")
  with tc_step_hook_actions[of s h acts] have a: "tc_step_ok s s1" by simp
  have b: "tc_step_ok s1 (tc_emit_update (TieredCache_clearTimeoutKey key s1))"
    "tc_step_ok s1 (tc_emit_update (TieredCache_setTimeout key t s1))" for t
    by (rule tc_step_ok_trans[OF _ tc_step_emit_update], rule tc_step_clearTimeoutKey)
       (rule tc_step_ok_trans[OF _ tc_step_emit_update], rule tc_step_setTimeout)
  show ?thesis
    using a tc_step_ok_trans[OF a b(1)] tc_step_ok_trans[OF a b(2)]
    by (simp add: TieredCache_runTimeout_try_def hk ra split: option.splits sum.splits)
qed

lemma tc_runTimeout_inv: "tc_inv s \<Longrightarrow> tc_inv (snd (TieredCache_runTimeout h key s))"
proof -
  assume inv: "tc_inv s"
  obtain r s1 where t: "TieredCache_runTimeout_try h key s = (r, s1)"
    by (cases "TieredCache_runTimeout_try h key s")
  with tc_step_runTimeout_try[of s h key] inv have "tc_inv s1" by (simp add: tc_step_ok_def)
  then show ?thesis
    by (simp add: TieredCache_runTimeout_def t tc_inv_def split: option.splits)
qed

lemma tc_runTimeout_never_throws: "fst (TieredCache_runTimeout h key s) = None"
  by (simp add: TieredCache_runTimeout_def split: prod.splits option.splits)

lemma tc_fired_inv: "tc_inv s \<Longrightarrow> tc_inv (s\<lparr>tc_timers := js_clearTimeout hdl (tc_timers s)\<rparr>)"
  by (auto simp: tc_inv_def timers_ok_clear recorded_by_def pending_clear)

lemma tc_runTimeout_le: "timers_le (tc_timers s) (tc_timers (snd (TieredCache_runTimeout h key s)))"
proof -
  obtain r s1 where t: "TieredCache_runTimeout_try h key s = (r, s1)"
    by (cases "TieredCache_runTimeout_try h key s")
  with tc_step_runTimeout_try[of s h key] have "timers_le (tc_timers s) (tc_timers s1)"
    by (simp add: tc_step_ok_def)
  then show ?thesis
    by (simp add: TieredCache_runTimeout_def t split: option.splits)
qed

lemma tc_fire_le: "timers_le (tc_timers s) (tc_timers (snd (tc_fire h hdl s)))"
proof -
  obtain r T where f: "js_fire hdl (tc_timers s) = (r, T)" by (cases "js_fire hdl (tc_timers s)")
  show ?thesis
  proof (cases r)
    case None
    with f show ?thesis by (simp add: tc_fire_def timers_le_refl)
  next
    case (Some k)
    with js_fire_cases[OF f] have T: "T = js_clearTimeout hdl (tc_timers s)" by auto
    have "timers_le (tc_timers s) (tc_timers (s\<lparr>tc_timers := T\<rparr>))"
      by (simp add: T timers_le_clear)
    from timers_le_trans[OF this tc_runTimeout_le[of "s\<lparr>tc_timers := T\<rparr>" h k]] f Some
    show ?thesis by (simp add: tc_fire_def)
  qed
qed

lemma tc_exec_le: "timers_le (tc_timers s) (tc_timers (snd (tc_exec h op s)))"
proof (cases op)
  case (TcGet key tr timeout)
  with tc_step_get[of s h key tr timeout] show ?thesis
    by (auto simp: tc_step_ok_def split: prod.splits sum.splits)
next
  case (TcSet key tr d timeout)
  with tc_step_set[of s h key tr d timeout] show ?thesis by (simp add: tc_step_ok_def)
next
  case (TcSetEntries tr entries timeout)
  with tc_step_setEntries[of s h tr entries timeout] show ?thesis by (simp add: tc_step_ok_def)
next
  case (TcDelete key)
  with tc_step_delete[of s key] show ?thesis by (simp add: tc_step_ok_def)
next
  case (TcDeleteKeys keys)
  with tc_step_deleteKeys[of s keys] show ?thesis by (simp add: tc_step_ok_def)
next
  case TcClear
  with tc_step_clear[of s] show ?thesis by (simp add: tc_step_ok_def)
next
  case (TcFire hdl)
  with tc_fire_le[of s h hdl] show ?thesis by simp
qed (simp_all add: TieredCache_status_def TieredCache_buildStatus_def timers_le_refl)

lemma tc_run_le: "timers_le (tc_timers s) (tc_timers (snd (tc_run h ops s)))"
proof (induction ops arbitrary: s)
  case Nil
  show ?case by (simp add: timers_le_refl)
next
  case (Cons op ops)
  from timers_le_trans[OF tc_exec_le[of s h op] Cons.IH[of "snd (tc_exec h op s)"]] show ?case
    by (auto split: prod.splits)
qed

lemma tc_fire_inv: "tc_inv s \<Longrightarrow> tc_inv (snd (tc_fire h hdl s))"
proof -
  assume inv: "tc_inv s"
  obtain r T where f: "js_fire hdl (tc_timers s) = (r, T)" by (cases "js_fire hdl (tc_timers s)")
  show ?thesis
  proof (cases r)
    case None
    with f inv show ?thesis by (simp add: tc_fire_def)
  next
    case (Some k)
    with js_fire_cases[OF f] have T: "T = js_clearTimeout hdl (tc_timers s)" by auto
    from tc_runTimeout_inv[OF tc_fired_inv[OF inv]] f Some show ?thesis
      by (simp add: tc_fire_def T)
  qed
qed

lemma tc_exec_inv: "tc_inv s \<Longrightarrow> tc_inv (snd (tc_exec h op s))"
proof -
  assume inv: "tc_inv s"
  have g: "tc_inv (snd (TieredCache_get h key tr timeout s))" for key tr timeout
    using tc_step_get[of s h key tr timeout] inv by (simp add: tc_step_ok_def)
  show ?thesis
  proof (cases op)
    case (TcGet key tr timeout)
    with g[of key tr timeout] show ?thesis by (auto split: prod.splits sum.splits)
  next
    case (TcSet key tr d timeout)
    with tc_step_set[of s h key tr d timeout] inv show ?thesis by (simp add: tc_step_ok_def)
  next
    case (TcSetEntries tr entries timeout)
    with tc_step_setEntries[of s h tr entries timeout] inv show ?thesis by (simp add: tc_step_ok_def)
  next
    case (TcDelete key)
    with tc_step_delete[of s key] inv show ?thesis by (simp add: tc_step_ok_def)
  next
    case (TcDeleteKeys keys)
    with tc_step_deleteKeys[of s keys] inv show ?thesis by (simp add: tc_step_ok_def)
  next
    case TcClear
    with tc_step_clear[of s] inv show ?thesis by (simp add: tc_step_ok_def)
  next
    case (TcFire hdl)
    with tc_fire_inv[OF inv] show ?thesis by simp
  qed (use inv in \<open>simp_all add: TieredCache_status_def TieredCache_buildStatus_def\<close>)
qed

lemma tc_run_inv: "tc_inv s \<Longrightarrow> tc_inv (snd (tc_run h ops s))"
proof (induction ops arbitrary: s)
  case Nil
  then show ?case by simp
next
  case (Cons op ops)
  from Cons.IH[OF tc_exec_inv[OF Cons.prems, of h op]] show ?case
    by (auto split: prod.splits)
qed

lemma tc_new_inv: "tc_inv TieredCache_new"
  by (simp add: tc_inv_def TieredCache_new_def timers_ok_def recorded_by_def no_timers_def)

lemma tc_run_append:
  "tc_run h (xs @ ys) s =
     (fst (tc_run h xs s) @ fst (tc_run h ys (snd (tc_run h xs s))), snd (tc_run h ys (snd (tc_run h xs s))))"
  by (induction xs arbitrary: s) (auto split: prod.splits)

lemma tc_buildStatus_True:
  "TieredCache_buildStatus True s = (status_of (tc_cache s), s\<lparr>tc_statusData := status_of (tc_cache s)\<rparr>)"
  by (simp add: TieredCache_buildStatus_def status_of_def Let_def)

lemma tc_emit_update_eq:
  "tc_emit_update s =
     s\<lparr>tc_statusData := status_of (tc_cache s),
       tc_events := tc_events s @ [EmitUpdate (status_of (tc_cache s))]\<rparr>"
  by (simp add: tc_emit_update_def tc_buildStatus_True tc_emit_def)

lemma status_fresh_emit_update: "status_fresh (tc_emit_update s)"
  by (simp add: status_fresh_def tc_emit_update_eq)

lemma status_fresh_same:
  "status_fresh s \<Longrightarrow> tc_cache s' = tc_cache s \<Longrightarrow> tc_statusData s' = tc_statusData s \<Longrightarrow> status_fresh s'"
  by (simp add: status_fresh_def)

lemma mdelete_absent: "\<not> mhas k m \<Longrightarrow> mdelete k m = m"
  unfolding mhas_def mdelete_def
  by (induction m rule: live.induct) auto

lemma foldl_tier_count:
  "foldl (\<lambda>acc e. acc(tier e := Suc (acc (tier e)))) f es t = f t + length (filter (\<lambda>e. tier e = t) es)"
  by (induction es arbitrary: f) auto

lemma sum_tier_count:
  "(\<Sum>t\<in>(UNIV :: 't::finite set). length (filter (\<lambda>e. tier e = t) es)) = length es"
proof (induction es)
  case Nil
  then show ?case by simp
next
  case (Cons e es)
  have "(\<Sum>t\<in>(UNIV :: 't set). length (filter (\<lambda>e. tier e = t) (e # es))) =
        (\<Sum>t\<in>(UNIV :: 't set). (if tier e = t then 1 else 0) + length (filter (\<lambda>e. tier e = t) es))"
    by (intro sum.cong) auto
  also have "\<dots> = (\<Sum>t\<in>(UNIV :: 't set). if tier e = t then 1 else 0) + length es"
    by (simp add: sum.distrib Cons.IH)
  also have "\<dots> = 1 + length es"
    by simp
  finally show ?case by simp
qed

lemma status_of_counts:
  "status_tiers (status_of c) t = length (filter (\<lambda>e. tier e = t) (mvalues c))"
  "status_size (status_of c) = length (mkeys c)"
  by (simp_all add: status_of_def foldl_tier_count getInitialStatusData_def msize_def mkeys_def)

lemma status_of_sum:
  "status_size (status_of (c :: ('k, ('t::finite) tier_entry) jsmap)) = (\<Sum>t\<in>UNIV. status_tiers (status_of c) t)"
proof -
  have "length (mkeys c) = length (mvalues c)"
    by (simp add: mkeys_def mvalues_def)
  then show ?thesis
    by (simp only: status_of_counts sum_tier_count)
qed

section \<open>At most one timer per key\<close>

lemma etc_clearTimeout_le:
  "timers_le (etc_timers s) (etc_timers (ExpireTimeoutCache_clearTimeout key s))"
  by (simp add: ExpireTimeoutCache_clearTimeout_def timers_le_refl timers_le_clear
           split: option.splits timeout_object.splits)

lemma etc_set_le: "timers_le (etc_timers s) (etc_timers (ExpireTimeoutCache_set now key d ex s))"
proof -
  let ?s1 = "ExpireTimeoutCache_clearTimeout key s"
  have a: "timers_le (etc_timers s) (etc_timers ?s1)" by (rule etc_clearTimeout_le)
  have "etc_timers (ExpireTimeoutCache_set now key d ex s) =
          (case ExpireTimeoutCache_getExpireDate now ex ?s1 of
             None \<Rightarrow> etc_timers ?s1
           | Some e \<Rightarrow> snd (js_setTimeout key (e - now) (etc_timers ?s1)))"
    by (simp add: ExpireTimeoutCache_set_def ExpireTimeoutCache_handleTimeoutSetup_def Let_def
          js_setTimeout_def split: option.splits)
  with a timers_le_trans[OF a timers_le_set] show ?thesis
    by (simp split: option.splits)
qed

lemma etc_delete_le: "timers_le (etc_timers s) (etc_timers (snd (ExpireTimeoutCache_delete key s)))"
  using etc_clearTimeout_le[of s key]
  by (simp add: ExpireTimeoutCache_delete_def Let_def etc_emit_def split: option.splits)

lemma etc_clearTimeouts_le:
  "timers_le (etc_timers s) (etc_timers (ExpireTimeoutCache_clearTimeouts keys s))"
proof (induction keys arbitrary: s)
  case Nil
  show ?case by (simp add: timers_le_refl)
next
  case (Cons k keys)
  from timers_le_trans[OF etc_clearTimeout_le Cons.IH] show ?case by simp
qed

lemma etc_clear_le: "timers_le (etc_timers s) (etc_timers (ExpireTimeoutCache_clear s))"
  using etc_clearTimeouts_le[of s "mkeys (etc_cacheTimeout s)"]
  by (simp add: ExpireTimeoutCache_clear_def Let_def etc_emit_def)

lemma etc_fire_le: "timers_le (etc_timers s) (etc_timers (etc_fire h s))"
proof -
  obtain r T where f: "js_fire h (etc_timers s) = (r, T)" by (cases "js_fire h (etc_timers s)")
  show ?thesis
  proof (cases r)
    case None
    with f show ?thesis by (simp add: etc_fire_def timers_le_refl)
  next
    case (Some k)
    with js_fire_cases[OF f] have T: "T = js_clearTimeout h (etc_timers s)" by auto
    have "timers_le (etc_timers s) (etc_timers (s\<lparr>etc_timers := T\<rparr>))"
      by (simp add: T timers_le_clear)
    from timers_le_trans[OF this etc_delete_le[of "s\<lparr>etc_timers := T\<rparr>" k]] f Some
    show ?thesis by (simp add: etc_fire_def ExpireTimeoutCache_handleExpiredCallback_def)
  qed
qed

lemma etc_exec_le: "timers_le (etc_timers s) (etc_timers (etc_exec op s))"
proof -
  obtain now o' where op: "op = (now, o')" by (cases op)
  have "timers_le (etc_timers s) (etc_timers (etc_exec (now, o') s))"
    by (cases o')
       (simp_all add: etc_set_le etc_delete_le etc_clear_le etc_fire_le timers_le_refl
          ExpireTimeoutCache_get_def ExpireTimeoutCache_setExpireMs_def etc_emit_def Let_def)
  then show ?thesis by (simp add: op)
qed

lemma etc_run_le: "timers_le (etc_timers s) (etc_timers (etc_run ops s))"
proof (induction ops arbitrary: s)
  case Nil
  show ?case by (simp add: etc_run_def timers_le_refl)
next
  case (Cons op ops)
  from timers_le_trans[OF etc_exec_le[of s op] Cons.IH[of "etc_exec op s", unfolded etc_run_def]]
  show ?case by (simp add: etc_run_def)
qed

lemma js_fire_spent:
  assumes "timers_ok T" and "h \<in> fst ` set (pending T)"
  shows "h < next_handle (js_clearTimeout h T)" and "h \<notin> fst ` set (pending (js_clearTimeout h T))"
  using assms by (auto simp: timers_ok_def js_clearTimeout_def)

lemma etc_fire_once:
  assumes inv: "etc_inv s" and p: "h \<in> fst ` set (pending (etc_timers s))"
  shows "h \<notin> fst ` set (pending (etc_timers (etc_run ops (etc_fire h s))))"
proof -
  from inv have ok: "timers_ok (etc_timers s)" by (simp add: etc_inv_def)
  obtain r T where f: "js_fire h (etc_timers s) = (r, T)" by (cases "js_fire h (etc_timers s)")
  with js_fire_cases[OF f] p obtain k where r: "r = Some k" and T: "T = js_clearTimeout h (etc_timers s)"
    by auto
  have e: "etc_fire h s = snd (ExpireTimeoutCache_delete k (s\<lparr>etc_timers := T\<rparr>))"
    by (simp add: etc_fire_def f r ExpireTimeoutCache_handleExpiredCallback_def)
  have "timers_le T (etc_timers (etc_run ops (etc_fire h s)))"
    unfolding e using timers_le_trans[OF etc_delete_le[of "s\<lparr>etc_timers := T\<rparr>" k] etc_run_le]
    by simp
  from timers_le_spent[OF this] js_fire_spent[OF ok p] show ?thesis by (simp add: T)
qed

lemma tc_fire_once:
  assumes inv: "tc_inv s" and p: "hdl \<in> fst ` set (pending (tc_timers s))"
  shows "hdl \<notin> fst ` set (pending (tc_timers (snd (tc_run h ops (snd (tc_fire h hdl s))))))"
proof -
  from inv have ok: "timers_ok (tc_timers s)" by (simp add: tc_inv_def)
  obtain r T where f: "js_fire hdl (tc_timers s) = (r, T)" by (cases "js_fire hdl (tc_timers s)")
  with js_fire_cases[OF f] p obtain k where r: "r = Some k" and T: "T = js_clearTimeout hdl (tc_timers s)"
    by auto
  have e: "tc_fire h hdl s = TieredCache_runTimeout h k (s\<lparr>tc_timers := T\<rparr>)"
    by (simp add: tc_fire_def f r)
  have "timers_le T (tc_timers (snd (tc_run h ops (snd (tc_fire h hdl s)))))"
    unfolding e using timers_le_trans[OF tc_runTimeout_le[of "s\<lparr>tc_timers := T\<rparr>" h k] tc_run_le]
    by simp
  from timers_le_spent[OF this] js_fire_spent[OF ok p] show ?thesis by (simp add: T)
qed

lemma tc_set_arms:
  assumes inv: "tc_inv s"
    and res: "(case timeout of Some t \<Rightarrow> Inr (Some t) | None \<Rightarrow> handleTimeoutValue h key tr d) = Inr (Some t)"
  shows "timers_for key (tc_timers (snd (TieredCache_set h key tr d timeout s))) =
           [(next_handle (tc_timers s), key, t)]"
proof -
  let ?s1 = "s\<lparr>tc_cache := mset key (TierEntry tr d) (tc_cache s)\<rparr>"
  have inv1: "tc_inv ?s1" using inv by (simp add: tc_inv_def)
  from res have "TieredCache_handleSetValue h key tr d timeout s = (None, TieredCache_setTimeout key (Some t) ?s1)"
    by (auto simp: TieredCache_handleSetValue_def Let_def split: option.splits sum.splits)
  then show ?thesis
    using tc_setTimeout_inv(2)[OF inv1, of key "Some t"]
    by (simp add: TieredCache_set_def)
qed

text \<open>
  Claim C5. Let \<open>s\<close> be any state the timer-expiring cache can reach and \<open>u\<close> any state
  the tiered engine can reach under any strategy, each possibly ending in a run of
  consecutive \<^verbatim>\<open>set\<close> calls on \<open>key\<close>. Then no key has more than one pending timer; a
  further \<^verbatim>\<open>set\<close> on \<open>key\<close> that resolves a timeout leaves exactly one pending timer for
  \<open>key\<close>, the one it has just armed; and a timer that has fired is never pending again,
  whatever happens later.
\<close>

theorem one_timer_per_key:
  assumes "s = etc_run (ops @ map (\<lambda>(n, v, x). (n, EtSet key v x)) sets) (ExpireTimeoutCache_new d0)"
    and "ExpireTimeoutCache_getExpireDate now ex s = Some e"
    and "u = snd (tc_run h (tops @ map (\<lambda>(r, v, x). TcSet key r v x) tsets) TieredCache_new)"
    and "(case timeout of Some t \<Rightarrow> Inr (Some t) | None \<Rightarrow> handleTimeoutValue h key tr d) = Inr (Some t)"
  shows "length (timers_for k (etc_timers s)) \<le> 1 \<and>
         timers_for key (etc_timers (ExpireTimeoutCache_set now key v ex s)) =
           [(next_handle (etc_timers s), key, e - now)] \<and>
         (hdl \<in> fst ` set (pending (etc_timers s)) \<longrightarrow>
            hdl \<notin> fst ` set (pending (etc_timers (etc_run later (etc_fire hdl s))))) \<and>
         length (timers_for k (tc_timers u)) \<le> 1 \<and>
         timers_for key (tc_timers (snd (TieredCache_set h key tr d timeout u))) =
           [(next_handle (tc_timers u), key, t)] \<and>
         (hdl \<in> fst ` set (pending (tc_timers u)) \<longrightarrow>
            hdl \<notin> fst ` set (pending (tc_timers (snd (tc_run h tlater (snd (tc_fire h hdl u)))))))"
proof -
  have inv: "etc_inv s" unfolding assms(1) by (rule etc_run_inv[OF etc_new_inv])
  have tinv: "tc_inv u" unfolding assms(3) by (rule tc_run_inv[OF tc_new_inv])
  have 1: "length (timers_for k (etc_timers s)) \<le> 1"
    using inv timers_for_le1[of "etc_timers s" "etc_recorded s" k] by (simp add: etc_inv_def)
  have 2: "timers_for key (etc_timers (ExpireTimeoutCache_set now key v ex s)) =
           [(next_handle (etc_timers s), key, e - now)]"
    using etc_set_inv(2)[OF inv, of key now v ex] assms(2) by simp
  have 4: "length (timers_for k (tc_timers u)) \<le> 1"
    using tinv timers_for_le1[of "tc_timers u" "\<lambda>k. mget k (tc_cacheTimeout u)" k] by (simp add: tc_inv_def)
  show ?thesis
    using 1 2 4 etc_fire_once[OF inv] tc_fire_once[OF tinv] tc_set_arms[OF tinv assms(4)]
    by simp
qed

lemmas tc_defs =
  TieredCache_new_def TieredCache_setTimeout_def TieredCache_clearTimeoutKey_def
  TieredCache_clearAllTimeouts_def TieredCache_buildStatus_def TieredCache_status_def
  TieredCache_handleSetValue_def TieredCache_handleDeleteValue_def TieredCache_get_def
  TieredCache_set_def TieredCache_setEntries_def TieredCache_getTier_def TieredCache_has_def
  TieredCache_size_def TieredCache_clear_def TieredCache_delete_def TieredCache_deleteKeys_def
  TieredCache_runTimeout_try_def TieredCache_runTimeout_def tc_fire_def tc_emit_def
  tc_emit_update_def getInitialStatusData_def
  js_setTimeout_def js_clearTimeout_def js_fire_def no_timers_def timers_for_def
  mget_def mhas_def mset_def mdelete_def mclear_def msize_def mkeys_def mvalues_def

lemmas date_defs =
  DateTieredCache_def DateTieredCache_handleCacheEntry_def DateTieredCache_handleTimeoutValue_def
  DateTieredCache_handleTierDefaultTimeout_def DateTieredCache_handleTierTimeout_def
  getModel_def getObject_def getStringValue_def cdate_obj_def js_table_def
  DateTimeout_Model_def DateTimeout_Object_def DateTimeout_StringValue_def

text \<open>
  Two \<^verbatim>\<open>set\<close> calls on one key in each cache, then a third: one timer before, one
  after, and the timer that fires does not come back.
\<close>

theorem one_timer_per_key_witness:
  "(let s = etc_run ([] @ map (\<lambda>(n, v, x). (n, EtSet ''k'' v x))
                 [(0, JStr ''a'', Some 100), (10, JStr ''b'', Some 200)]) (ExpireTimeoutCache_new None);
        h = DateTieredCache (js_table []);
        u = snd (tc_run h ([] @ map (\<lambda>(r, v, x). TcSet ''k'' r v x)
                 [(Model, JDate (TimeMs 0), None), (Model, JDate (TimeMs 5), None)]) TieredCache_new)
    in ExpireTimeoutCache_getExpireDate 20 (Some 300) s = Some 300 \<and>
       handleTimeoutValue h ''k'' Model (JDate (TimeMs 7)) = Inr (Some 100) \<and>
       length (timers_for ''k'' (etc_timers s)) \<le> 1 \<and>
       timers_for ''k'' (etc_timers (ExpireTimeoutCache_set 20 ''k'' (JStr ''c'') (Some 300) s)) =
         [(3, ''k'', 280)] \<and>
       2 \<in> fst ` set (pending (etc_timers s)) \<and>
       2 \<notin> fst ` set (pending (etc_timers
              (etc_run [(30, EtSet ''k'' (JStr ''d'') (Some 400))] (etc_fire 2 s)))) \<and>
       length (timers_for ''k'' (tc_timers u)) \<le> 1 \<and>
       timers_for ''k'' (tc_timers (snd (TieredCache_set h ''k'' Model (JDate (TimeMs 7)) None u))) =
         [(3, ''k'', 100)] \<and>
       2 \<in> fst ` set (pending (tc_timers u)) \<and>
       2 \<notin> fst ` set (pending (tc_timers
              (snd (tc_run h [TcGet ''k'' Model None] (snd (tc_fire h 2 u)))))))"
proof -
  define s :: "string expire_timeout_cache" where
    "s = etc_run ([] @ map (\<lambda>(n, v, x). (n, EtSet ''k'' v x))
                 [(0, JStr ''a'', Some 100), (10, JStr ''b'', Some 200)]) (ExpireTimeoutCache_new None)"
  define h where "h = DateTieredCache (js_table [])"
  define u where "u = snd (tc_run h ([] @ map (\<lambda>(r, v, x). TcSet ''k'' r v x)
                 [(Model, JDate (TimeMs 0), None), (Model, JDate (TimeMs 5), None)]) TieredCache_new)"
  have a: "ExpireTimeoutCache_getExpireDate 20 (Some 300) s = Some 300"
    by (simp add: ExpireTimeoutCache_getExpireDate_def)
  have b: "(case None of Some t \<Rightarrow> Inr (Some t) | None \<Rightarrow> handleTimeoutValue h ''k'' Model (JDate (TimeMs 7)))
             = Inr (Some 100)"
    by (simp add: h_def date_defs)
  have c: "next_handle (etc_timers s) = 3" "pending (etc_timers s) = [(2, ''k'', 190)]"
    by (simp_all add: s_def etc_defs Let_def)
  have d: "next_handle (tc_timers u) = 3" "pending (tc_timers u) = [(2, ''k'', 100)]"
    by (simp_all add: u_def h_def tc_defs date_defs Let_def)
  note th = one_timer_per_key[OF s_def a u_def b, where k = "''k''" and hdl = 2 and v = "JStr ''c''"
      and later = "[(30, EtSet ''k'' (JStr ''d'') (Some 400))]" and tlater = "[TcGet ''k'' Model None]"]
  from th a b c d show ?thesis
    unfolding Let_def s_def[symmetric] h_def[symmetric] u_def[symmetric]
    by simp
qed

section \<open>The status snapshot\<close>

lemma status_fresh_new: "status_fresh TieredCache_new"
  by (simp add: status_fresh_def TieredCache_new_def status_of_def msize_def mvalues_def)

text \<open>
  With the strategies of the section on the engine, whose reads leave the state alone, the
  engine with methods is the engine of that section.
\<close>

lemma lift_handleSetValue:
  "TieredCache_handleSetValue_m (lift_hooks h) key tr d timeout s = TieredCache_handleSetValue h key tr d timeout s"
  by (simp add: TieredCache_handleSetValue_m_def TieredCache_handleSetValue_def lift_hooks_def Let_def
           split: option.splits sum.splits)

lemma lift_get:
  "TieredCache_get_m (lift_hooks h) key tr timeout s = TieredCache_get h key tr timeout s"
  by (simp add: TieredCache_get_m_def TieredCache_get_def lift_hooks_def Let_def
           split: option.splits sum.splits)

lemma lift_set:
  "TieredCache_set_m (lift_hooks h) key tr d timeout s = TieredCache_set h key tr d timeout s"
  by (simp add: TieredCache_set_m_def TieredCache_set_def lift_handleSetValue)

lemma lift_setEntries_loop:
  "TieredCache_setEntries_loop_m (lift_hooks h) tr es timeout s = TieredCache_setEntries_loop h tr es timeout s"
  by (induction es arbitrary: s) (auto simp: lift_handleSetValue split: prod.splits option.splits)

lemma lift_setEntries:
  "TieredCache_setEntries_m (lift_hooks h) tr es timeout s = TieredCache_setEntries h tr es timeout s"
  by (simp add: TieredCache_setEntries_m_def TieredCache_setEntries_def lift_setEntries_loop)

lemma lift_runTimeout_try:
  "TieredCache_runTimeout_try_m (lift_hooks h) key s = TieredCache_runTimeout_try h key s"
  by (auto simp: TieredCache_runTimeout_try_m_def TieredCache_runTimeout_try_def lift_hooks_def
           split: prod.splits option.splits sum.splits)

lemma lift_runTimeout:
  "snd (TieredCache_runTimeout_m (lift_hooks h) key s) = snd (TieredCache_runTimeout h key s)"
  by (auto simp: TieredCache_runTimeout_m_def TieredCache_runTimeout_def lift_runTimeout_try
           split: prod.splits option.splits)

lemma lift_exec:
  "snd (tcm_exec (lift_hooks h) (Op op) s) = snd (tc_exec h op s)"
  by (cases op)
     (auto simp: lift_get lift_set lift_setEntries lift_runTimeout tc_fire_m_def tc_fire_def
           split: prod.splits sum.splits option.splits)

lemma lift_tierValues_next:
  "TieredCache_tierValues_next_m (lift_hooks h) tr it s = (TieredCache_tierValues_next h tr s it, s)"
  by (auto simp: TieredCache_tierValues_next_m_def TieredCache_tierValues_next_def lift_hooks_def
           split: prod.splits option.splits sum.splits)

lemma lift_tierEntries_next:
  "TieredCache_tierEntries_next_m (lift_hooks h) tr it s = (TieredCache_tierEntries_next h tr s it, s)"
  by (auto simp: TieredCache_tierEntries_next_m_def TieredCache_tierEntries_next_def lift_hooks_def
           split: prod.splits option.splits sum.splits)

lemma lift_reads_keep_storage: "reads_keep_storage (lift_hooks h)"
  by (simp add: reads_keep_storage_def lift_hooks_def)

text \<open>
  A step that recomputes leaves the snapshot of the stored entries, whatever the methods did
  and whatever the state before; a step that calls no method recomputes or keeps the counts;
  a read keeps the stored entries and the snapshot when the methods it calls do.
\<close>

lemma tc_emit_update_last:
  "tc_events (tc_emit_update s) \<noteq> [] \<and>
   last (tc_events (tc_emit_update s)) = EmitUpdate (tc_statusData (tc_emit_update s))"
  by (simp add: tc_emit_update_eq)

lemma recomputed_emit_update: "recomputed (tc_emit_update s)"
  by (simp add: recomputed_def status_fresh_emit_update tc_emit_update_last)

lemma tcm_exec_recomputes:
  assumes "recomputes op (fst (tcm_exec h op s)) s"
  shows "recomputed (snd (tcm_exec h op s))"
proof (cases op)
  case (Op o')
  show ?thesis
  proof (cases o')
    case (TcSet key tr d timeout)
    with Op assms show ?thesis
      by (auto simp: TieredCache_set_m_def recomputed_emit_update split: prod.splits option.splits)
  next
    case (TcSetEntries tr entries timeout)
    with Op assms show ?thesis
      by (auto simp: TieredCache_setEntries_m_def recomputed_emit_update split: prod.splits option.splits)
  next
    case (TcDelete key)
    with Op assms show ?thesis
      by (auto simp: TieredCache_delete_def TieredCache_handleDeleteValue_def Let_def recomputed_emit_update)
  next
    case (TcDeleteKeys keys)
    with Op show ?thesis
      by (auto simp: TieredCache_deleteKeys_def recomputed_emit_update split: prod.splits)
  next
    case TcClear
    with Op show ?thesis
      by (auto simp: TieredCache_clear_def Let_def recomputed_emit_update)
  next
    case (TcFire hdl)
    with Op assms show ?thesis
      by (auto simp: tc_fire_m_def TieredCache_runTimeout_m_def TieredCache_runTimeout_try_m_def
            recomputed_emit_update split: prod.splits option.splits sum.splits)
  qed (use Op assms in simp_all)
qed (use assms in simp_all)

lemma keeps_counts_same:
  "tc_cache s' = tc_cache s \<Longrightarrow> tc_statusData s' = tc_statusData s \<Longrightarrow> keeps_counts s s'"
  by (simp add: keeps_counts_def)

lemma tcm_exec_no_method:
  assumes "calls_no_method op"
  shows "recomputes op r s \<or> keeps_counts s (snd (tcm_exec h op s))"
proof (cases op)
  case (Op o')
  show ?thesis
  proof (cases o')
    case (TcDelete key)
    with Op show ?thesis
      by (auto simp: TieredCache_delete_def TieredCache_handleDeleteValue_def Let_def mdelete_absent
               intro!: keeps_counts_same)
  qed (use Op assms in \<open>auto simp: TieredCache_status_def TieredCache_buildStatus_def intro!: keeps_counts_same\<close>)
qed (use assms in simp_all)

lemma tcm_get_quiet:
  assumes "reads_keep_storage h"
  shows "tc_cache (snd (TieredCache_get_m h key tr timeout s)) = tc_cache s \<and>
         tc_statusData (snd (TieredCache_get_m h key tr timeout s)) = tc_statusData s"
proof -
  obtain r1 s1 where a: "m_handleCacheEntry h key tr (mget key (tc_cache s)) s = (r1, s1)"
    by (cases "m_handleCacheEntry h key tr (mget key (tc_cache s)) s")
  obtain r2 s2 where b: "m_handleTierDefaultTimeout h tr s1 = (r2, s2)"
    by (cases "m_handleTierDefaultTimeout h tr s1")
  from assms a have s1: "tc_cache s1 = tc_cache s" "tc_statusData s1 = tc_statusData s"
    unfolding reads_keep_storage_def by (metis snd_conv)+
  from assms b have s2: "tc_cache s2 = tc_cache s1" "tc_statusData s2 = tc_statusData s1"
    unfolding reads_keep_storage_def by (metis snd_conv)+
  from a b s1 s2 show ?thesis
    by (auto simp: TieredCache_get_m_def Let_def split: sum.splits option.splits)
qed

lemma tcm_exec_read_quiet:
  assumes q: "reads_keep_storage h" and r: "is_read op"
  shows "tc_cache (snd (tcm_exec h op s)) = tc_cache s \<and>
         tc_statusData (snd (tcm_exec h op s)) = tc_statusData s"
proof (cases op)
  case (Op o')
  with r obtain key tr timeout where o': "o' = TcGet key tr timeout" by (cases o') simp_all
  from tcm_get_quiet[OF q, of key tr timeout s] Op o' show ?thesis
    by (auto split: prod.splits sum.splits)
next
  case (TierValuesNext tr it)
  have "tc_cache (snd (TieredCache_tierValues_next_m h tr it s)) = tc_cache s \<and>
        tc_statusData (snd (TieredCache_tierValues_next_m h tr it s)) = tc_statusData s"
  proof (cases "mnext (tc_cache s) it")
    case (Pair x it')
    show ?thesis
    proof (cases x)
      case None
      with Pair show ?thesis by (simp add: TieredCache_tierValues_next_m_def)
    next
      case (Some ke)
      obtain key e where ke: "ke = (key, e)" by (cases ke)
      obtain r1 s1 where a: "m_handleCacheEntry h key tr (Some e) s = (r1, s1)"
        by (cases "m_handleCacheEntry h key tr (Some e) s")
      from q a have "tc_cache s1 = tc_cache s" "tc_statusData s1 = tc_statusData s"
        unfolding reads_keep_storage_def by (metis snd_conv)+
      with Pair Some ke a show ?thesis
        by (auto simp: TieredCache_tierValues_next_m_def split: sum.splits)
    qed
  qed
  with TierValuesNext show ?thesis by (auto split: prod.splits sum.splits)
next
  case (TierEntriesNext tr it)
  have "tc_cache (snd (TieredCache_tierEntries_next_m h tr it s)) = tc_cache s \<and>
        tc_statusData (snd (TieredCache_tierEntries_next_m h tr it s)) = tc_statusData s"
  proof (cases "mnext (tc_cache s) it")
    case (Pair x it')
    show ?thesis
    proof (cases x)
      case None
      with Pair show ?thesis by (simp add: TieredCache_tierEntries_next_m_def)
    next
      case (Some ke)
      obtain key e where ke: "ke = (key, e)" by (cases ke)
      obtain r1 s1 where a: "m_handleCacheEntry h key tr (Some e) s = (r1, s1)"
        by (cases "m_handleCacheEntry h key tr (Some e) s")
      from q a have "tc_cache s1 = tc_cache s" "tc_statusData s1 = tc_statusData s"
        unfolding reads_keep_storage_def by (metis snd_conv)+
      with Pair Some ke a show ?thesis
        by (auto simp: TieredCache_tierEntries_next_m_def split: sum.splits)
    qed
  qed
  with TierEntriesNext show ?thesis by (auto split: prod.splits sum.splits)
qed

lemma keeps_counts_fresh: "status_fresh s \<Longrightarrow> keeps_counts s s' \<Longrightarrow> status_fresh s'"
  by (simp add: status_fresh_def keeps_counts_def)

lemma tcm_run_settled:
  "status_fresh s \<Longrightarrow> tcm_settled h ops s \<Longrightarrow> status_fresh (snd (tcm_run h ops s))"
proof (induction ops arbitrary: s)
  case Nil
  then show ?case by simp
next
  case (Cons op ops)
  obtain r s1 where ex: "tcm_exec h op s = (r, s1)" by (cases "tcm_exec h op s")
  with Cons.prems(2) have st: "recomputes op r s \<or> keeps_counts s s1" and rest: "tcm_settled h ops s1"
    by simp_all
  from st have "status_fresh s1"
  proof
    assume "recomputes op r s"
    with tcm_exec_recomputes[of op h s] ex show ?thesis by (simp add: recomputed_def)
  next
    assume "keeps_counts s s1"
    with Cons.prems(1) show ?thesis by (rule keeps_counts_fresh)
  qed
  from Cons.IH[OF this rest] ex show ?case by (auto split: prod.splits)
qed

lemma tcm_exec_clean_step:
  assumes q: "reads_keep_storage h" and c: "is_read op \<or> fst (tcm_exec h op s) = None"
  shows "recomputes op (fst (tcm_exec h op s)) s \<or> keeps_counts s (snd (tcm_exec h op s))"
proof (cases "is_read op")
  case True
  from tcm_exec_read_quiet[OF q True, of s] show ?thesis by (simp add: keeps_counts_def)
next
  case False
  with c have n: "fst (tcm_exec h op s) = None" by simp
  show ?thesis
  proof (cases "calls_no_method op")
    case True
    then show ?thesis by (rule tcm_exec_no_method)
  next
    case nm: False
    from False nm obtain o' where op: "op = Op o'" by (cases op) simp_all
    from False nm op consider (set) key tr d timeout where "o' = TcSet key tr d timeout"
      | (setEntries) tr es timeout where "o' = TcSetEntries tr es timeout"
      | (fire) hdl where "o' = TcFire hdl"
      by (cases o') simp_all
    then show ?thesis
    proof cases
      case set
      with op n show ?thesis by simp
    next
      case setEntries
      with op n show ?thesis by simp
    next
      case fire
      show ?thesis
      proof (cases "fst (js_fire hdl (tc_timers s))")
        case None
        with fire op show ?thesis
          by (auto simp: tc_fire_m_def keeps_counts_def split: prod.splits)
      next
        case (Some k)
        with fire op n show ?thesis by simp
      qed
    qed
  qed
qed

lemma tcm_clean_settled:
  "reads_keep_storage h \<Longrightarrow> tcm_clean ops (fst (tcm_run h ops s)) \<Longrightarrow> tcm_settled h ops s"
proof (induction ops arbitrary: s)
  case Nil
  then show ?case by simp
next
  case (Cons op ops)
  obtain r s1 where ex: "tcm_exec h op s = (r, s1)" by (cases "tcm_exec h op s")
  obtain rs s2 where rn: "tcm_run h ops s1 = (rs, s2)" by (cases "tcm_run h ops s1")
  from Cons.prems(2) ex rn have c: "is_read op \<or> r = None" and cr: "tcm_clean ops rs" by simp_all
  from tcm_exec_clean_step[OF Cons.prems(1), of op s] c ex
  have "recomputes op r s \<or> keeps_counts s s1" by simp
  moreover from Cons.IH[OF Cons.prems(1), of s1] cr rn have "tcm_settled h ops s1" by simp
  ultimately show ?case using ex by simp
qed

lemmas tcm_defs =
  TieredCache_handleSetValue_m_def TieredCache_get_m_def TieredCache_set_m_def
  TieredCache_setEntries_m_def TieredCache_runTimeout_try_m_def TieredCache_runTimeout_m_def
  tc_fire_m_def TieredCache_tierValues_next_m_def TieredCache_tierEntries_next_m_def
  lift_hooks_def mnext_def

lemma status_fresh_consistent:
  fixes s :: "('k, 't::finite) tiered_cache"
  assumes "status_fresh s"
  shows "status_consistent s"
proof -
  from assms have fr: "tc_statusData s = status_of (tc_cache s)" by (simp add: status_fresh_def)
  have b: "status_size (tc_statusData s) = (\<Sum>t\<in>UNIV. status_tiers (tc_statusData s) t)"
    unfolding fr by (rule status_of_sum)
  have c: "status_size (tc_statusData s) = length (mkeys (tc_cache s))"
    unfolding fr by (rule status_of_counts)
  have c': "status_size (tc_statusData s) = TieredCache_size s"
    unfolding c by (simp add: TieredCache_size_def msize_def mkeys_def)
  have d: "status_tiers (tc_statusData s) t = length (filter (\<lambda>e. tier e = t) (mvalues (tc_cache s)))" for t
    unfolding fr by (rule status_of_counts)
  from b c c' d show ?thesis unfolding status_consistent_def by blast
qed

text \<open>
  Claim C4, amended. Operations, timer callbacks and steps of tier sequences are run to
  completion one after another, with any methods. \<^verbatim>\<open>status()\<close> returns the stored snapshot
  and changes nothing. A \<^verbatim>\<open>set\<close> or \<^verbatim>\<open>setEntries\<close> that returns, a \<^verbatim>\<open>delete\<close> of a stored
  key, \<^verbatim>\<open>deleteKeys\<close>, \<^verbatim>\<open>clear\<close> and a timer callback whose method does not throw end by
  recomputing the snapshot from the stored entries and sending it in \<^verbatim>\<open>update\<close>, from any
  state. After a run from the new cache in which every other step left the snapshot and the
  per-tier counts of the stored entries as they were, the \<^verbatim>\<open>size\<close> of the snapshot is the
  sum of its per-tier counts and the number of keys stored, and each per-tier count is the
  number of stored entries tagged with that tier. Every run is such a run when the methods
  called by reads change neither the stored entries nor the snapshot and no method error
  ends a \<^verbatim>\<open>set\<close>, a \<^verbatim>\<open>setEntries\<close> or a timer callback; reads may fail.
\<close>

theorem status_consistent_after_settled_run:
  fixes h h0 :: "('k, 't::finite) methods"
  shows "(tcm_settled h ops TieredCache_new \<longrightarrow>
            status_consistent (snd (tcm_run h ops TieredCache_new))) \<and>
         TieredCache_status s0 = (tc_statusData s0, s0) \<and>
         (recomputes op0 (fst (tcm_exec h0 op0 s0)) s0 \<longrightarrow>
            (let s1 = snd (tcm_exec h0 op0 s0)
             in status_consistent s1 \<and>
                tc_events s1 \<noteq> [] \<and> last (tc_events s1) = EmitUpdate (tc_statusData s1))) \<and>
         (reads_keep_storage h0 \<and> tcm_clean ops0 (fst (tcm_run h0 ops0 s0)) \<longrightarrow>
            tcm_settled h0 ops0 s0)"
proof -
  have run: "status_consistent (snd (tcm_run h ops TieredCache_new))"
    if "tcm_settled h ops TieredCache_new"
    using tcm_run_settled[OF status_fresh_new that] by (rule status_fresh_consistent)
  have a: "TieredCache_status s0 = (tc_statusData s0, s0)"
    by (simp add: TieredCache_status_def TieredCache_buildStatus_def)
  have e: "status_consistent s1 \<and>
           tc_events s1 \<noteq> [] \<and> last (tc_events s1) = EmitUpdate (tc_statusData s1)"
    if "recomputes op0 (fst (tcm_exec h0 op0 s0)) s0" and "s1 = snd (tcm_exec h0 op0 s0)" for s1
    using tcm_exec_recomputes[OF that(1)] that(2)
    by (simp add: recomputed_def status_fresh_consistent)
  have f: "tcm_settled h0 ops0 s0"
    if "reads_keep_storage h0" and "tcm_clean ops0 (fst (tcm_run h0 ops0 s0))"
    using that by (rule tcm_clean_settled)
  from run a e f show ?thesis unfolding Let_def by blast
qed

text \<open>
  The claim as stated covers every sequence of public operations. \<^verbatim>\<open>get\<close> never
  recomputes: with the override that the reference strategy describes in its comment, which
  on a miss stores a \<^verbatim>\<open>model\<close> entry with \<^verbatim>\<open>handleSetValue\<close> and returns \<^verbatim>\<open>undefined\<close>, one
  \<^verbatim>\<open>get\<close> on the new cache throws nothing and leaves one key stored and \<^verbatim>\<open>status().size\<close>
  at 0. And \<^verbatim>\<open>set\<close> stores the entry before it asks \<^verbatim>\<open>handleTimeoutValue\<close> for a timeout:
  when that method throws, the call fails after the entry is stored and before the snapshot
  is recomputed, with the same result.
\<close>

theorem status_stale_after_storing_or_throwing_method_counterexample:
  "(let base = lift_hooks (DateTieredCache (js_table []));
        lookup = base\<lparr>m_handleCacheEntry :=
                   (\<lambda>key tr entry s.
                      case entry of
                        None \<Rightarrow>
                          (Inr JUndefined,
                           snd (TieredCache_handleSetValue_m base key Model (JDate (TimeMs 0)) None s))
                      | Some e \<Rightarrow> m_handleCacheEntry base key tr entry s)\<rparr>;
        r = tcm_run lookup [Op (TcGet ''k'' Model None)] TieredCache_new;
        boom = base\<lparr>m_handleTimeoutValue := (\<lambda>key tr d s. (Inl (HookError ''boom''), s))\<rparr>;
        r' = tcm_run boom [Op (TcSet ''k'' Model (JDate (TimeMs 0)) None)] TieredCache_new
    in fst r = [None] \<and>
       TieredCache_size (snd r) = 1 \<and>
       status_size (fst (TieredCache_status (snd r))) = 0 \<and>
       fst r' = [Some (HookError ''boom'')] \<and>
       TieredCache_size (snd r') = 1 \<and>
       status_size (fst (TieredCache_status (snd r'))) = 0)"
  by (simp add: tcm_defs tc_defs date_defs Let_def)

text \<open>
  The reference strategy: two keys stored, the timer of the first fires and moves it to the
  \<^verbatim>\<open>object\<close> tier, the second is deleted, the first is read, a third is stored as text
  that is not JSON, reading it as a \<^verbatim>\<open>model\<close> fails, and a tier sequence is advanced. The
  only error is that of the failed read, and the snapshot counts the two stored entries.
\<close>

theorem status_consistent_witness:
  "(let h = lift_hooks (DateTieredCache (js_table []));
        op1 = Op (TcSet ''a'' Model (JDate (TimeMs 0)) None);
        ops = [op1,
               Op (TcSet ''b'' Object (cdate_obj (TimeMs 5)) (Some 100)),
               Op (TcFire 1),
               Op (TcDelete ''b''),
               Op (TcGet ''a'' Model None),
               Op (TcSet ''c'' StringValue (JStr ''hello'') None),
               Op (TcGet ''c'' Model None),
               TierEntriesNext Object (Some 0)];
        s = snd (tcm_run h ops TieredCache_new);
        s1 = snd (tcm_exec h op1 TieredCache_new)
    in fst (tcm_run h ops TieredCache_new) =
         [None, None, None, None, None, None, Some SyntaxError, None] \<and>
       reads_keep_storage h \<and>
       tcm_clean ops (fst (tcm_run h ops TieredCache_new)) \<and>
       tcm_settled h ops TieredCache_new \<and>
       TieredCache_getTier ''a'' s = Some Object \<and>
       TieredCache_size s = 2 \<and>
       status_size (fst (TieredCache_status s)) = 2 \<and>
       status_tiers (fst (TieredCache_status s)) Object = 1 \<and>
       status_tiers (fst (TieredCache_status s)) StringValue = 1 \<and>
       status_tiers (fst (TieredCache_status s)) Model = 0 \<and>
       recomputes op1 (fst (tcm_exec h op1 TieredCache_new)) TieredCache_new \<and>
       status_size (tc_statusData s1) = 1 \<and>
       last (tc_events s1) = EmitUpdate (tc_statusData s1))"
proof -
  define h where "h = lift_hooks (DateTieredCache (js_table []))"
  define op1 :: "(string, date_tier) tcm_op" where "op1 = Op (TcSet ''a'' Model (JDate (TimeMs 0)) None)"
  define ops where "ops = [op1,
               Op (TcSet ''b'' Object (cdate_obj (TimeMs 5)) (Some 100)),
               Op (TcFire 1),
               Op (TcDelete ''b''),
               Op (TcGet ''a'' Model None),
               Op (TcSet ''c'' StringValue (JStr ''hello'') None),
               Op (TcGet ''c'' Model None),
               TierEntriesNext Object (Some 0)]"
  define s where "s = snd (tcm_run h ops TieredCache_new)"
  define s1 where "s1 = snd (tcm_exec h op1 TieredCache_new)"
  have outs: "fst (tcm_run h ops TieredCache_new) =
                [None, None, None, None, None, None, Some SyntaxError, None]"
    and c: "live (tc_cache s) =
              [(''a'', TierEntry Object (JObj [(''$cdate'', JNum (Num 0))])),
               (''c'', TierEntry StringValue (JStr ''hello''))]"
    by (simp_all add: s_def h_def ops_def op1_def tcm_defs tc_defs date_defs Let_def trunc_def)
  have q: "reads_keep_storage h"
    by (simp add: h_def reads_keep_storage_def lift_hooks_def)
  have cl: "tcm_clean ops (fst (tcm_run h ops TieredCache_new))"
    unfolding outs by (simp add: ops_def op1_def)
  have r1: "recomputes op1 (fst (tcm_exec h op1 TieredCache_new)) TieredCache_new"
    and c1: "live (tc_cache s1) = [(''a'', TierEntry Model (JDate (TimeMs 0)))]"
    by (simp_all add: s1_def op1_def h_def tcm_defs tc_defs date_defs Let_def)
  note t = status_consistent_after_settled_run[where h = h and ops = ops and ?h0.0 = h
             and ?ops0.0 = ops and ?s0.0 = "TieredCache_new" and ?op0.0 = op1]
  from t q cl have st: "tcm_settled h ops TieredCache_new" by blast
  from t st have "status_consistent s"
    unfolding s_def[symmetric] by blast
  then have
    A: "status_size (tc_statusData s) = length (mkeys (tc_cache s))"
       "\<And>t. status_tiers (tc_statusData s) t = length (filter (\<lambda>e. tier e = t) (mvalues (tc_cache s)))"
    unfolding status_consistent_def by blast+
  from t r1 have
    B: "status_consistent s1" "last (tc_events s1) = EmitUpdate (tc_statusData s1)"
    unfolding Let_def s1_def[symmetric] by blast+
  have sz: "TieredCache_getTier ''a'' s = Some Object" "TieredCache_size s = 2"
    using c by (simp_all add: TieredCache_getTier_def TieredCache_size_def mget_def msize_def)
  have st1: "status_size (fst (TieredCache_status s)) = 2"
    "status_tiers (fst (TieredCache_status s)) Object = 1"
    "status_tiers (fst (TieredCache_status s)) StringValue = 1"
    "status_tiers (fst (TieredCache_status s)) Model = 0"
    using A c by (simp_all add: TieredCache_status_def TieredCache_buildStatus_def mkeys_def mvalues_def)
  from B(1) have "status_size (tc_statusData s1) = length (mkeys (tc_cache s1))"
    unfolding status_consistent_def by blast
  with c1 have st2: "status_size (tc_statusData s1) = 1"
    by (simp add: mkeys_def)
  from outs q cl st sz st1 r1 st2 B(2) show ?thesis
    unfolding Let_def h_def[symmetric] op1_def[symmetric] ops_def[symmetric] s_def[symmetric] s1_def[symmetric]
    by blast
qed

section \<open>Tier sequences\<close>

lemma skip_empty_Some:
  "skip_empty m i = Some (x, j) \<Longrightarrow> i < j \<and> live m = x # live (drop (j - i) m)"
proof (induction m i rule: skip_empty.induct)
  case (2 es i)
  then have "Suc i < j" and l: "live es = x # live (drop (j - Suc i) es)" by simp_all
  then have "j - i = Suc (j - Suc i)" by simp
  with \<open>Suc i < j\<close> l show ?case by simp
qed auto

lemma skip_empty_None: "skip_empty m i = None \<Longrightarrow> live m = []"
  by (induction m i rule: skip_empty.induct) simp_all

lemma mnext_Some:
  assumes "mnext m (Some i) = (Some x, it')"
  shows "\<exists>j. it' = Some j \<and> live (drop i m) = x # live (drop j m)"
proof -
  from assms obtain j where sk: "skip_empty (drop i m) i = Some (x, j)" and it': "it' = Some j"
    by (auto simp: mnext_def split: option.splits)
  from skip_empty_Some[OF sk] have "i < j" and l: "live (drop i m) = x # live (drop (j - i) (drop i m))"
    by simp_all
  then have "drop (j - i) (drop i m) = drop j m" by simp
  with l it' show ?thesis by simp
qed

lemma mnext_None:
  assumes "mnext m (Some i) = (None, it')"
  shows "live (drop i m) = []"
  using assms skip_empty_None[of "drop i m" i]
  by (auto simp: mnext_def split: option.splits)

lemma tierEntries_drain_eq:
  "TieredCache_tierEntries_drain h tr s it =
     (case it of None \<Rightarrow> Inr [] | Some i \<Rightarrow> reproject_all h tr (live (drop i (tc_cache s))))"
proof (induction h tr s it rule: TieredCache_tierEntries_drain.induct)
  case (1 h tr s it)
  show ?case
  proof (cases it)
    case None
    show ?thesis
      unfolding None by (simp add: TieredCache_tierEntries_drain.simps[of h tr s None] TieredCache_tierEntries_next_def mnext_def)
  next
    case (Some i)
    obtain r it' where mn: "mnext (tc_cache s) (Some i) = (r, it')"
      by (cases "mnext (tc_cache s) (Some i)")
    show ?thesis
    proof (cases r)
      case None
      with mn mnext_None[of "tc_cache s" i it'] show ?thesis
        unfolding \<open>it = Some i\<close>
        by (simp add: TieredCache_tierEntries_drain.simps[of h tr s "Some i"] TieredCache_tierEntries_next_def)
    next
      case (Some x)
      obtain key e where x: "x = (key, e)" by (cases x)
      from mnext_Some[of "tc_cache s" i x it'] mn Some obtain j where
        j: "it' = Some j" and l: "live (drop i (tc_cache s)) = (key, e) # live (drop j (tc_cache s))"
        by (auto simp: x)
      show ?thesis
      proof (cases "handleCacheEntry h key tr (Some e)")
        case (Inl err)
        with mn Some x l show ?thesis
          unfolding \<open>it = Some i\<close>
          by (simp add: TieredCache_tierEntries_drain.simps[of h tr s "Some i"] TieredCache_tierEntries_next_def)
      next
        case (Inr v)
        with mn Some x \<open>it = Some i\<close>
        have nx: "TieredCache_tierEntries_next h tr s it = (Inr (Some (key, v)), it')"
          by (simp add: TieredCache_tierEntries_next_def)
        from "1.IH"[OF nx[symmetric] refl refl] j
        have "TieredCache_tierEntries_drain h tr s it' = reproject_all h tr (live (drop j (tc_cache s)))"
          by simp
        with nx Inr l show ?thesis
          unfolding \<open>it = Some i\<close>
          by (simp add: TieredCache_tierEntries_drain.simps[of h tr s "Some i"])
      qed
    qed
  qed
qed

lemma tierValues_drain_eq:
  "TieredCache_tierValues_drain h tr s it =
     (case it of
        None \<Rightarrow> Inr []
      | Some i \<Rightarrow> map_sum id (map snd) (reproject_all h tr (live (drop i (tc_cache s)))))"
proof (induction h tr s it rule: TieredCache_tierValues_drain.induct)
  case (1 h tr s it)
  show ?case
  proof (cases it)
    case None
    show ?thesis
      unfolding None by (simp add: TieredCache_tierValues_drain.simps[of h tr s None] TieredCache_tierValues_next_def mnext_def)
  next
    case (Some i)
    obtain r it' where mn: "mnext (tc_cache s) (Some i) = (r, it')"
      by (cases "mnext (tc_cache s) (Some i)")
    show ?thesis
    proof (cases r)
      case None
      with mn mnext_None[of "tc_cache s" i it'] show ?thesis
        unfolding \<open>it = Some i\<close>
        by (simp add: TieredCache_tierValues_drain.simps[of h tr s "Some i"] TieredCache_tierValues_next_def)
    next
      case (Some x)
      obtain key e where x: "x = (key, e)" by (cases x)
      from mnext_Some[of "tc_cache s" i x it'] mn Some obtain j where
        j: "it' = Some j" and l: "live (drop i (tc_cache s)) = (key, e) # live (drop j (tc_cache s))"
        by (auto simp: x)
      show ?thesis
      proof (cases "handleCacheEntry h key tr (Some e)")
        case (Inl err)
        with mn Some x l show ?thesis
          unfolding \<open>it = Some i\<close>
          by (simp add: TieredCache_tierValues_drain.simps[of h tr s "Some i"] TieredCache_tierValues_next_def)
      next
        case (Inr v)
        with mn Some x \<open>it = Some i\<close>
        have nx: "TieredCache_tierValues_next h tr s it = (Inr (Some v), it')"
          by (simp add: TieredCache_tierValues_next_def)
        from "1.IH"[OF nx[symmetric] refl refl] j
        have "TieredCache_tierValues_drain h tr s it' =
                map_sum id (map snd) (reproject_all h tr (live (drop j (tc_cache s))))"
          by simp
        with nx Inr l show ?thesis
          unfolding \<open>it = Some i\<close>
          by (simp add: TieredCache_tierValues_drain.simps[of h tr s "Some i"] split: sum.splits)
      qed
    qed
  qed
qed

text \<open>
  Claim C1, amended. The sequence returned by \<^verbatim>\<open>tierEntries(tier)\<close> or
  \<^verbatim>\<open>tierValues(tier)\<close> in state \<open>s\<close> is driven by one live iterator over the cache.
  Run to its end while the cache is in state \<open>s'\<close> (whatever happened between the call
  and the iteration), it visits every key stored in \<open>s'\<close> and only those, in insertion
  order, and yields each stored entry reprojected into the requested tier (an absent
  result is yielded as \<^verbatim>\<open>undefined\<close>, not skipped; the first reprojection that throws
  ends the sequence with its error). With no mutation after the call, \<open>s' = s\<close>.
\<close>

theorem tier_sequences_iterate_live_storage:
  "TieredCache_tierEntries_drain h tr s' (TieredCache_tierEntries tr s) =
     reproject_all h tr (live (tc_cache s')) \<and>
   TieredCache_tierValues_drain h tr s' (TieredCache_tierValues tr s) =
     map_sum id (map snd) (reproject_all h tr (live (tc_cache s')))"
  by (simp add: tierEntries_drain_eq tierValues_drain_eq TieredCache_tierEntries_def
        TieredCache_tierValues_def mentries_def)

text \<open>
  The claim as stated fixes the visited keys at call time. The sequence is taken when only
  \<open>a\<close> is stored. After its first step \<open>b\<close> is stored, and the next step yields \<open>b\<close>;
  iterated after \<open>b\<close> is stored it visits \<open>a\<close> and \<open>b\<close>, and iterated after \<open>a\<close> is
  deleted as well it visits only \<open>b\<close>.
\<close>

theorem tier_sequence_is_not_a_snapshot_counterexample:
  "(let h = DateTieredCache (js_table []);
        s0 = snd (TieredCache_set h ''a'' Model (JDate (TimeMs 1)) None TieredCache_new);
        it0 = TieredCache_tierEntries Model s0;
        it1 = snd (TieredCache_tierEntries_next h Model s0 it0);
        s1 = snd (TieredCache_set h ''b'' Model (JDate (TimeMs 2)) None s0);
        s2 = snd (TieredCache_delete ''a'' s1)
    in mkeys (tc_cache s0) = [''a''] \<and>
       fst (TieredCache_tierEntries_next h Model s0 it0) = Inr (Some (''a'', JDate (TimeMs 1))) \<and>
       fst (TieredCache_tierEntries_next h Model s1 it1) = Inr (Some (''b'', JDate (TimeMs 2))) \<and>
       TieredCache_tierEntries_drain h Model s1 it0 =
         Inr [(''a'', JDate (TimeMs 1)), (''b'', JDate (TimeMs 2))] \<and>
       TieredCache_tierEntries_drain h Model s2 it0 = Inr [(''b'', JDate (TimeMs 2))])"
  by (simp add: tierEntries_drain_eq TieredCache_tierEntries_def TieredCache_tierEntries_next_def
        mentries_def mnext_def tc_defs date_defs Let_def)

section \<open>Hook errors, read refresh and batched deletion\<close>

lemma tc_setEntries_loop_first_error:
  "\<forall>p\<in>set pre. \<exists>t. handleTimeoutValue h (fst p) tr (snd p) = Inr t \<Longrightarrow>
   handleTimeoutValue h key tr d = Inl e \<Longrightarrow>
     fst (TieredCache_setEntries_loop h tr (pre @ (key, d) # post) None s) = Some e"
proof (induction pre arbitrary: s)
  case Nil
  then show ?case by (simp add: TieredCache_handleSetValue_def Let_def)
next
  case (Cons p pre)
  obtain k v where p: "p = (k, v)" by (cases p)
  from Cons.prems(1) obtain t where t: "handleTimeoutValue h k tr v = Inr t" by (auto simp: p)
  from Cons.IH[of "snd (TieredCache_handleSetValue h k tr v None s)"] Cons.prems t show ?case
    by (simp add: p TieredCache_handleSetValue_def Let_def)
qed

lemma assoc_distinct_eq:
  "distinct (map fst xs) \<Longrightarrow> (a, b) \<in> set xs \<Longrightarrow> (a, c) \<in> set xs \<Longrightarrow> b = c"
  by (induction xs) (auto simp: image_iff)

lemma js_fire_pending:
  assumes ok: "timers_ok T" and p: "(hdl, key, dl) \<in> set (pending T)"
  shows "js_fire hdl T = (Some key, js_clearTimeout hdl T)"
proof -
  obtain r T' where f: "js_fire hdl T = (r, T')" by (cases "js_fire hdl T")
  from js_fire_cases[OF f] p obtain t where
    t: "t \<in> set (pending T)" "fst t = hdl" "r = Some (fst (snd t))" "T' = js_clearTimeout hdl T"
    by force
  from t(1,2) have "(hdl, snd t) \<in> set (pending T)" by (cases t) auto
  with assoc_distinct_eq[OF _ this p] ok have "snd t = (key, dl)" by (simp add: timers_ok_def)
  with f t show ?thesis by simp
qed

text \<open>
  Claim C6. An error thrown by \<^verbatim>\<open>handleCacheEntry\<close> (or by
  \<^verbatim>\<open>handleTierDefaultTimeout\<close>) during \<^verbatim>\<open>get\<close>, or by \<^verbatim>\<open>handleTimeoutValue\<close> during
  \<^verbatim>\<open>set\<close> or \<^verbatim>\<open>setEntries\<close> (the first entry whose hook throws), is the result of the
  call: it reaches the caller. \<^verbatim>\<open>runTimeout\<close> never throws: an error of the timer hook
  is appended to the error log and nothing else is done after it. In a reachable state,
  when the timer of a key fires and the hook throws at once, the engine only drops the
  fired timer and logs the error; no timer is left pending for the key, so nothing is
  retried.
\<close>

theorem hook_errors_propagate_except_from_timers:
  assumes "u = snd (tc_run h ops TieredCache_new)"
  shows "(handleCacheEntry h key tr (mget key (tc_cache s)) = Inl e \<longrightarrow>
            TieredCache_get h key tr timeout s = (Inl e, s)) \<and>
         (handleCacheEntry h key tr (mget key (tc_cache s)) = Inr v \<and> truthy v \<and>
          handleTierDefaultTimeout h tr = Inl e \<longrightarrow>
            TieredCache_get h key tr None s = (Inl e, s)) \<and>
         (handleTimeoutValue h key tr d = Inl e \<longrightarrow>
            fst (TieredCache_set h key tr d None s) = Some e \<and>
            tc_events (snd (TieredCache_set h key tr d None s)) = tc_events s) \<and>
         ((\<forall>p\<in>set pre. \<exists>t. handleTimeoutValue h (fst p) tr (snd p) = Inr t) \<and>
          handleTimeoutValue h key tr d = Inl e \<longrightarrow>
            fst (TieredCache_setEntries h tr (pre @ (key, d) # post) None s) = Some e) \<and>
         fst (TieredCache_runTimeout h key s) = None \<and>
         (TieredCache_runTimeout_try h key s = (Some e, s1) \<longrightarrow>
            TieredCache_runTimeout h key s = (None, s1\<lparr>tc_errors := tc_errors s1 @ [e]\<rparr>)) \<and>
         ((hdl, key, dl) \<in> set (pending (tc_timers u)) \<and>
          handleTierTimeout h key (tc_cache u) = ([], Inl e) \<longrightarrow>
            tc_fire h hdl u =
              (None, u\<lparr>tc_timers := js_clearTimeout hdl (tc_timers u),
                        tc_errors := tc_errors u @ [e]\<rparr>) \<and>
            timers_for key (tc_timers (snd (tc_fire h hdl u))) = [])"
proof -
  have 1: "handleCacheEntry h key tr (mget key (tc_cache s)) = Inl e \<longrightarrow>
            TieredCache_get h key tr timeout s = (Inl e, s)"
    by (simp add: TieredCache_get_def Let_def)
  have 2: "handleCacheEntry h key tr (mget key (tc_cache s)) = Inr v \<and> truthy v \<and>
          handleTierDefaultTimeout h tr = Inl e \<longrightarrow>
            TieredCache_get h key tr None s = (Inl e, s)"
    by (simp add: TieredCache_get_def Let_def)
  have 3: "handleTimeoutValue h key tr d = Inl e \<longrightarrow>
            fst (TieredCache_set h key tr d None s) = Some e \<and>
            tc_events (snd (TieredCache_set h key tr d None s)) = tc_events s"
    by (simp add: TieredCache_set_def TieredCache_handleSetValue_def Let_def)
  have 4: "(\<forall>p\<in>set pre. \<exists>t. handleTimeoutValue h (fst p) tr (snd p) = Inr t) \<and>
          handleTimeoutValue h key tr d = Inl e \<longrightarrow>
            fst (TieredCache_setEntries h tr (pre @ (key, d) # post) None s) = Some e"
  proof (intro impI, elim conjE)
    assume a: "\<forall>p\<in>set pre. \<exists>t. handleTimeoutValue h (fst p) tr (snd p) = Inr t"
      and b: "handleTimeoutValue h key tr d = Inl e"
    from tc_setEntries_loop_first_error[OF a b, of post s]
    show "fst (TieredCache_setEntries h tr (pre @ (key, d) # post) None s) = Some e"
      by (auto simp: TieredCache_setEntries_def split: prod.splits option.splits)
  qed
  have 5: "fst (TieredCache_runTimeout h key s) = None"
    by (rule tc_runTimeout_never_throws)
  have 6: "TieredCache_runTimeout_try h key s = (Some e, s1) \<longrightarrow>
            TieredCache_runTimeout h key s = (None, s1\<lparr>tc_errors := tc_errors s1 @ [e]\<rparr>)"
    by (simp add: TieredCache_runTimeout_def)
  have 7: "(hdl, key, dl) \<in> set (pending (tc_timers u)) \<and>
          handleTierTimeout h key (tc_cache u) = ([], Inl e) \<longrightarrow>
            tc_fire h hdl u =
              (None, u\<lparr>tc_timers := js_clearTimeout hdl (tc_timers u),
                        tc_errors := tc_errors u @ [e]\<rparr>) \<and>
            timers_for key (tc_timers (snd (tc_fire h hdl u))) = []"
  proof (intro impI, elim conjE)
    assume p: "(hdl, key, dl) \<in> set (pending (tc_timers u))"
      and hk: "handleTierTimeout h key (tc_cache u) = ([], Inl e)"
    have inv: "tc_inv u" unfolding assms by (rule tc_run_inv[OF tc_new_inv])
    then have ok: "timers_ok (tc_timers u)"
      and r: "recorded_by (\<lambda>k. mget k (tc_cacheTimeout u)) (tc_timers u)"
      by (simp_all add: tc_inv_def)
    from r p have rec: "mget key (tc_cacheTimeout u) = Some hdl"
      by (force simp: recorded_by_def)
    have f: "tc_fire h hdl u =
              (None, u\<lparr>tc_timers := js_clearTimeout hdl (tc_timers u),
                        tc_errors := tc_errors u @ [e]\<rparr>)"
      by (simp add: tc_fire_def js_fire_pending[OF ok p] TieredCache_runTimeout_def
            TieredCache_runTimeout_try_def hk)
    from recorded_clear_key(2)[OF ok r rec, of "\<lambda>k. mget k (tc_cacheTimeout u)"]
    have "timers_for key (js_clearTimeout hdl (tc_timers u)) = []" by simp
    with f show "tc_fire h hdl u =
              (None, u\<lparr>tc_timers := js_clearTimeout hdl (tc_timers u),
                        tc_errors := tc_errors u @ [e]\<rparr>) \<and>
            timers_for key (tc_timers (snd (tc_fire h hdl u))) = []"
      by simp
  qed
  from 1 2 3 4 5 6 7 show ?thesis by blast
qed

text \<open>
  The reference strategy reading a malformed string entry as a model
  (\<^verbatim>\<open>JSON.parse('hello')\<close> is a syntax error), and two variants of it whose timeout hook
  and timer hook throw.
\<close>

theorem hook_errors_witness:
  "(let h0 = DateTieredCache (js_table []);
        h1 = h0\<lparr>handleTimeoutValue := (\<lambda>k t d. Inl (HookError ''boom''))\<rparr>;
        h2 = h0\<lparr>handleTierTimeout := (\<lambda>k c. ([], Inl (HookError ''late'')))\<rparr>;
        s = snd (TieredCache_set h0 ''k'' StringValue (JStr ''hello'') None TieredCache_new);
        u = snd (tc_run h2 [TcSet ''k'' Model (JDate (TimeMs 0)) (Some 100)] TieredCache_new)
    in handleCacheEntry h0 ''k'' Model (mget ''k'' (tc_cache s)) = Inl SyntaxError \<and>
       TieredCache_get h0 ''k'' Model None s = (Inl SyntaxError, s) \<and>
       handleTimeoutValue h1 ''k'' Model (JDate (TimeMs 0)) = Inl (HookError ''boom'') \<and>
       fst (TieredCache_set h1 ''k'' Model (JDate (TimeMs 0)) None s) = Some (HookError ''boom'') \<and>
       fst (TieredCache_setEntries h1 Model ([] @ (''k'', JDate (TimeMs 0)) # []) None s) =
         Some (HookError ''boom'') \<and>
       (1, ''k'', 100) \<in> set (pending (tc_timers u)) \<and>
       handleTierTimeout h2 ''k'' (tc_cache u) = ([], Inl (HookError ''late'')) \<and>
       fst (tc_fire h2 1 u) = None \<and>
       tc_errors (snd (tc_fire h2 1 u)) = [HookError ''late''] \<and>
       timers_for ''k'' (tc_timers (snd (tc_fire h2 1 u))) = [])"
proof -
  define h0 where "h0 = DateTieredCache (js_table [])"
  define h1 where "h1 = h0\<lparr>handleTimeoutValue := (\<lambda>k t d. Inl (HookError ''boom''))\<rparr>"
  define h2 where "h2 = h0\<lparr>handleTierTimeout := (\<lambda>k c. ([], Inl (HookError ''late'')))\<rparr>"
  define s where "s = snd (TieredCache_set h0 ''k'' StringValue (JStr ''hello'') None TieredCache_new)"
  define u where "u = snd (tc_run h2 [TcSet ''k'' Model (JDate (TimeMs 0)) (Some 100)] TieredCache_new)"
  have a: "handleCacheEntry h0 ''k'' Model (mget ''k'' (tc_cache s)) = Inl SyntaxError"
    by (simp add: s_def h0_def tc_defs date_defs Let_def)
  have b: "handleTimeoutValue h1 ''k'' Model (JDate (TimeMs 0)) = Inl (HookError ''boom'')"
    by (simp add: h1_def)
  have c: "(1, ''k'', 100) \<in> set (pending (tc_timers u))"
    "handleTierTimeout h2 ''k'' (tc_cache u) = ([], Inl (HookError ''late''))"
    "tc_errors u = []"
    by (simp_all add: u_def h2_def h0_def tc_defs date_defs Let_def)
  have e: "\<forall>p\<in>set []. \<exists>t. handleTimeoutValue h1 (fst p) Model (snd p) = Inr t" by simp
  note t0 = hook_errors_propagate_except_from_timers[OF refl, where h = h0 and ops = "[]"
      and key = "''k''" and tr = Model and s = s and e = SyntaxError and timeout = None]
  note t1 = hook_errors_propagate_except_from_timers[OF refl, where h = h1 and ops = "[]"
      and key = "''k''" and tr = Model and s = s and e = "HookError ''boom''" and d = "JDate (TimeMs 0)"
      and pre = "[]" and post = "[]"]
  note t2 = hook_errors_propagate_except_from_timers[OF u_def, where key = "''k''"
      and e = "HookError ''late''" and hdl = 1 and dl = 100]
  from t0 a have r0: "TieredCache_get h0 ''k'' Model None s = (Inl SyntaxError, s)" by blast
  from t1 b e have r1: "fst (TieredCache_set h1 ''k'' Model (JDate (TimeMs 0)) None s) = Some (HookError ''boom'')"
    "fst (TieredCache_setEntries h1 Model ([] @ (''k'', JDate (TimeMs 0)) # []) None s) =
         Some (HookError ''boom'')" by blast+
  from t2 c have r2: "tc_fire h2 1 u =
              (None, u\<lparr>tc_timers := js_clearTimeout 1 (tc_timers u),
                        tc_errors := tc_errors u @ [HookError ''late'']\<rparr>)"
    "timers_for ''k'' (tc_timers (snd (tc_fire h2 1 u))) = []" by blast+
  from r2(1) c(3) have r3: "fst (tc_fire h2 1 u) = None" "tc_errors (snd (tc_fire h2 1 u)) = [HookError ''late'']"
    by simp_all
  from a b c r0 r1 r2(2) r3 show ?thesis
    unfolding Let_def h0_def[symmetric] h1_def[symmetric] h2_def[symmetric] s_def[symmetric] u_def[symmetric]
    by blast
qed

text \<open>
  Claim C2 at a failing input. The reference strategy stores the empty string in the
  \<^verbatim>\<open>stringValue\<close> tier; the first timer is armed. A later \<^verbatim>\<open>get\<close> finds the entry
  and returns its value, the empty string; \<^verbatim>\<open>if (value)\<close> is false for it, so the timer
  is not reset: the timer armed by \<^verbatim>\<open>set\<close> is still the one pending and the state is
  unchanged. With the string \<open>x\<close> in its place the same \<^verbatim>\<open>get\<close> cancels the first timer
  and arms a second one.
\<close>

theorem get_of_falsy_value_keeps_old_timer:
  "(let h = DateTieredCache (js_table []);
        s = snd (TieredCache_set h ''k'' StringValue (JStr []) None TieredCache_new);
        r = TieredCache_get h ''k'' StringValue None s;
        s' = snd (TieredCache_set h ''k'' StringValue (JStr ''x'') None TieredCache_new);
        r' = TieredCache_get h ''k'' StringValue None s'
    in mget ''k'' (tc_cache s) = Some (TierEntry StringValue (JStr [])) \<and>
       timers_for ''k'' (tc_timers s) = [(1, ''k'', 100)] \<and>
       fst r = Inr (JStr []) \<and>
       timers_for ''k'' (tc_timers (snd r)) = [(1, ''k'', 100)] \<and>
       snd r = s \<and>
       timers_for ''k'' (tc_timers s') = [(1, ''k'', 100)] \<and>
       fst r' = Inr (JStr ''x'') \<and>
       timers_for ''k'' (tc_timers (snd r')) = [(2, ''k'', 100)])"
  by (simp add: tc_defs date_defs Let_def)

text \<open>
  For a truthy value the timer is reset as the claim says: in a reachable state the only
  timer left pending for the key is the one armed with the granted timeout.
\<close>

lemma get_truthy_value_refreshes_timer:
  assumes "s = snd (tc_run h ops TieredCache_new)"
    and "handleCacheEntry h key tr (mget key (tc_cache s)) = Inr v" and "truthy v"
    and "(case timeout of Some t \<Rightarrow> Inr (Some t) | None \<Rightarrow> handleTierDefaultTimeout h tr) = Inr granted"
  shows "fst (TieredCache_get h key tr timeout s) = Inr v"
    and "timers_for key (tc_timers (snd (TieredCache_get h key tr timeout s))) =
           (case granted of None \<Rightarrow> [] | Some t \<Rightarrow> [(next_handle (tc_timers s), key, t)])"
proof -
  have inv: "tc_inv s" unfolding assms(1) by (rule tc_run_inv[OF tc_new_inv])
  from assms(2-4) have g: "TieredCache_get h key tr timeout s = (Inr v, TieredCache_setTimeout key granted s)"
    by (auto simp: TieredCache_get_def Let_def split: option.splits sum.splits)
  then show "fst (TieredCache_get h key tr timeout s) = Inr v" by simp
  from g tc_setTimeout_inv(2)[OF inv, of key granted]
  show "timers_for key (tc_timers (snd (TieredCache_get h key tr timeout s))) =
           (case granted of None \<Rightarrow> [] | Some t \<Rightarrow> [(next_handle (tc_timers s), key, t)])"
    by simp
qed

text \<open>
  Claim C3 at a failing input. \<^verbatim>\<open>deleteKeys\<close> on keys that are not stored removes
  nothing and returns 0, and still emits \<^verbatim>\<open>delete\<close> (with an empty list) and
  \<^verbatim>\<open>update\<close>; \<^verbatim>\<open>delete\<close> of a key that is not stored emits nothing.
\<close>

theorem deleteKeys_of_absent_keys_still_notifies:
  "(let s = TieredCache_new :: (string, date_tier) tiered_cache;
        r = TieredCache_deleteKeys [''x'', ''y''] s
    in fst r = 0 \<and>
       tc_events (snd r) = [EmitDelete [], EmitUpdate \<lparr>status_size = 0, status_tiers = (\<lambda>t. 0)\<rparr>] \<and>
       TieredCache_delete ''x'' s = (False, s))"
  by (simp add: tc_defs Let_def)

text \<open>\<^verbatim>\<open>delete(key)\<close> does guard its notifications.\<close>

lemma delete_notifies_only_when_removed:
  "fst (TieredCache_delete key s) = mhas key (tc_cache s) \<and>
   tc_events (snd (TieredCache_delete key s)) =
     (if mhas key (tc_cache s)
      then tc_events s @ [EmitDelete [key], EmitUpdate (tc_statusData (snd (TieredCache_delete key s)))]
      else tc_events s)"
  by (simp add: TieredCache_delete_def TieredCache_handleDeleteValue_def Let_def tc_emit_update_eq)

section \<open>Round trips between the tiers of the reference strategy\<close>

lemma trunc_of_int [simp]: "trunc (of_int n) = n"
  by (simp add: trunc_def)

lemma in_time_range: "\<bar>n\<bar> \<le> 8640000000000000 \<Longrightarrow> \<not> 8640000000000000 < \<bar>rat_of_int n\<bar>"
proof -
  assume a: "\<bar>n\<bar> \<le> 8640000000000000"
  have "\<bar>(of_int n :: rat)\<bar> = of_int \<bar>n\<bar>" by simp
  also have "\<dots> \<le> of_int 8640000000000000" using a by (simp only: of_int_le_iff)
  finally show ?thesis by simp
qed

lemma trunc_numeral [simp]: "trunc (numeral k) = numeral k"
  using trunc_of_int[of "numeral k"] by simp

lemma trunc_three_halves: "trunc (3 / 2) = 1"
proof -
  have "\<lfloor>3 / 2 :: rat\<rfloor> = 1" by (rule floor_unique) simp_all
  then show ?thesis by (simp add: trunc_def)
qed

lemma reproject_canonical:
  assumes r: "\<bar>n\<bar> \<le> 8640000000000000"
    and p: "JSON_parse js (canonical StringValue n) = Inr (canonical Object n)"
  shows "DateTieredCache_handleCacheEntry js key b (Some (TierEntry a (canonical a n))) = Inr (canonical b n)"
proof (cases a)
  case Model
  then show ?thesis
    by (cases b)
       (simp_all add: DateTieredCache_handleCacheEntry_def getModel_def getObject_def getStringValue_def)
next
  case Object
  then show ?thesis
    by (cases b)
       (simp_all add: DateTieredCache_handleCacheEntry_def getModel_def getObject_def getStringValue_def
          cdate_obj_def in_time_range[OF r])
next
  case StringValue
  with p show ?thesis
    by (cases b)
       (simp_all add: DateTieredCache_handleCacheEntry_def getModel_def getObject_def getStringValue_def
          cdate_obj_def in_time_range[OF r])
qed

lemma object_timeout_stores_bare_number:
  assumes "mget key cache = Some (TierEntry Object (canonical Object n))"
    and r: "\<bar>n\<bar> \<le> 8640000000000000"
  shows "fst (DateTieredCache_handleTierTimeout js key cache) =
           [HandleSetValue key StringValue (JStr (show_int n)) None]"
  using assms(1)
  by (simp add: DateTieredCache_handleTierTimeout_def cdate_obj_def in_time_range[OF r])

text \<open>
  Claim C8, amended. For a timestamp \<open>n\<close> in the range of Date, stored in any tier in the form
  the strategy produces for it (a valid Date in the model tier, the object with the integer
  \<open>$cdate = n\<close> in the object tier, the JSON text of that object in the stringValue tier, which
  JSON.parse reads back as that object), reading the entry in any tier \<open>b\<close> yields the form of
  \<open>n\<close> in tier \<open>b\<close>, and converting to tier \<open>b\<close> and back yields the stored data again.
\<close>

theorem canonical_round_trip:
  assumes "\<bar>n\<bar> \<le> 8640000000000000"
    and "JSON_parse js (canonical StringValue n) = Inr (canonical Object n)"
  shows "round_trip js key a b (canonical a n) = Inr (canonical a n) \<and>
         DateTieredCache_handleCacheEntry js key b (Some (TierEntry a (canonical a n))) = Inr (canonical b n)"
  by (simp add: round_trip_def reproject_canonical[OF assms])

lemma show_nat_example: "show_nat 1704067200000 = ''1704067200000''"
  by (simp add: show_nat.simps)

text \<open>
  Claim C8 as stated fails for data that is not in that form: an object whose \<open>$cdate\<close> is
  the fraction 3/2 comes back with \<open>$cdate = 1\<close>, since new Date truncates; a stringValue
  that is not JSON makes the conversion throw; and a stringValue with other spacing comes back
  as the compact text.
\<close>

theorem round_trip_changes_noncanonical_data_counterexample:
  "round_trip (js_table []) ''k'' Object Model (JObj [(''$cdate'', JNum (Num (3 / 2)))]) =
     Inr (JObj [(''$cdate'', JNum (Num 1))]) \<and>
   round_trip (js_table []) ''k'' StringValue Model (JStr ''hello'') = Inl SyntaxError \<and>
   round_trip (js_table [(''{ \"$cdate\": 5 }'', JObj [(''$cdate'', JNum (Num 5))])]) ''k''
       StringValue Object (JStr ''{ \"$cdate\": 5 }'') =
     Inr (JStr ''{\"$cdate\":5}'')"
  by (simp add: round_trip_def date_defs trunc_three_halves show_int_def show_nat.simps)

text \<open>
  The example of the timestamp 1704067200000: stored in the model tier it reads in the
  stringValue tier as the compact JSON text of the object with that \<open>$cdate\<close>, and the round trips restore it.
\<close>

theorem canonical_round_trip_witness:
  "(let js = js_table [(''{\"$cdate\":1704067200000}'', JObj [(''$cdate'', JNum (Num 1704067200000))])]
    in \<bar>1704067200000 :: int\<bar> \<le> 8640000000000000 \<and>
       JSON_parse js (canonical StringValue 1704067200000) = Inr (canonical Object 1704067200000) \<and>
       DateTieredCache_handleCacheEntry js ''k1'' StringValue
           (Some (TierEntry Model (JDate (TimeMs 1704067200000)))) =
         Inr (JStr ''{\"$cdate\":1704067200000}'') \<and>
       round_trip js ''k1'' Model StringValue (JDate (TimeMs 1704067200000)) =
         Inr (JDate (TimeMs 1704067200000)) \<and>
       round_trip js ''k1'' StringValue Object (JStr ''{\"$cdate\":1704067200000}'') =
         Inr (JStr ''{\"$cdate\":1704067200000}''))"
proof -
  define js where "js = js_table [(''{\"$cdate\":1704067200000}'', JObj [(''$cdate'', JNum (Num 1704067200000))])]"
  have r: "\<bar>1704067200000 :: int\<bar> \<le> 8640000000000000" by simp
  have c: "canonical StringValue 1704067200000 = JStr ''{\"$cdate\":1704067200000}''"
    by (simp add: show_int_def show_nat_example)
  have p: "JSON_parse js (canonical StringValue 1704067200000) = Inr (canonical Object 1704067200000)"
    unfolding c by (simp add: js_def js_table_def cdate_obj_def)
  from canonical_round_trip[OF r p, of "''k1''" Model StringValue]
       canonical_round_trip[OF r p, of "''k1''" StringValue Object] r p c
  show ?thesis
    unfolding Let_def js_def[symmetric] by simp
qed

end
